theory Spec2Isabelle
  imports Main
begin

section \<open>The job lifecycle of the browser client (frontend/src/App.tsx)\<close>

text \<open>
  The component \<open>App\<close> keeps seven pieces of React state, registers one effect that
  depends on \<open>jobId\<close> and opens an \<open>EventSource\<close>, and has one asynchronous submit
  handler. The embedding below keeps the React state in a record, adds to it what React
  and the browser hold for the component (the dependency of the last effect run, the
  cleanup that run returned, the \<open>EventSource\<close> objects created so far) and logs every
  call the code makes on the outside world, in the order of the calls.
\<close>

subsection \<open>JavaScript values\<close>

text \<open>
  \<open>JSON.parse\<close> and \<open>response.json()\<close> return \<open>any\<close>: the values that flow into the
  state are whatever the server sent. An object is the list of its own properties, each
  name once. Numbers are the integers (the program only tests a number for truthiness
  and renders it in a template literal; the decimal rendering below is the one of
  ECMAScript for integers of magnitude below \<open>10^21\<close>).
\<close>

datatype jsval =
    Undefined
  | Null
  | Bool bool
  | Num int
  | Str string
  | Arr "jsval list"
  | Obj "(string \<times> jsval) list"

text \<open>ToBoolean, as used by \<open>!x\<close>, \<open>x || y\<close> and \<open>if (x)\<close>.\<close>

fun truthy :: "jsval \<Rightarrow> bool" where
  "truthy Undefined = False"
| "truthy Null = False"
| "truthy (Bool b) = b"
| "truthy (Num n) = (n \<noteq> 0)"
| "truthy (Str s) = (s \<noteq> [])"
| "truthy (Arr xs) = True"
| "truthy (Obj fs) = True"

text \<open>\<open>a || b\<close>\<close>

definition js_or :: "jsval \<Rightarrow> jsval \<Rightarrow> jsval" where
  "js_or a b = (if truthy a then a else b)"

text \<open>
  Reading a property throws a TypeError on \<open>null\<close> and \<open>undefined\<close>. On every other
  value \<open>get\<close> is the read of one of the names this program uses (\<open>type\<close>, \<open>data\<close>,
  \<open>report\<close>, \<open>filename\<close>, \<open>error\<close>, \<open>job_id\<close>): an own property of an object, and
  \<open>undefined\<close> on a number, a boolean, a string or an array, none of which has them.
\<close>

definition nullish :: "jsval \<Rightarrow> bool" where
  "nullish v = (v = Undefined \<or> v = Null)"

fun get :: "jsval \<Rightarrow> string \<Rightarrow> jsval" where
  "get (Obj fs) k = (case map_of fs k of None \<Rightarrow> Undefined | Some v \<Rightarrow> v)"
| "get v k = Undefined"

text \<open>The message of the TypeError that V8 raises for \<open>null.k\<close> and \<open>undefined.k\<close>.\<close>

definition TypeError_message :: "jsval \<Rightarrow> string \<Rightarrow> string" where
  "TypeError_message v k =
     ''Cannot read properties of '' @ (if v = Null then ''null'' else ''undefined'')
       @ '' (reading '' @ [CHR 0x27] @ k @ [CHR 0x27] @ '')''"

text \<open>
  ToString, as applied by a template literal and by \<open>new Error(msg)\<close>, on the values
  of JSON. The conversion of an object that has a property named \<open>toString\<close> of its
  own throws in ECMAScript; that case is not followed here (such an object stands for
  one without it).
\<close>

fun digits :: "nat \<Rightarrow> string" where
  "digits n =
     (if n < 10 then [char_of (48 + n)]
      else digits (n div 10) @ [char_of (48 + n mod 10)])"

definition decimal :: "int \<Rightarrow> string" where
  "decimal i = (if i < 0 then CHR ''-'' # digits (nat (- i)) else digits (nat i))"

fun join_comma :: "string list \<Rightarrow> string" where
  "join_comma [] = []"
| "join_comma [x] = x"
| "join_comma (x # y # ys) = x @ '','' @ join_comma (y # ys)"

fun ToString :: "jsval \<Rightarrow> string" where
  "ToString Undefined = ''undefined''"
| "ToString Null = ''null''"
| "ToString (Bool b) = (if b then ''true'' else ''false'')"
| "ToString (Num n) = decimal n"
| "ToString (Str s) = s"
| "ToString (Arr xs) =
     join_comma (map (\<lambda>x. if x = Undefined \<or> x = Null then [] else ToString x) xs)"
| "ToString (Obj fs) = ''[object Object]''"

text \<open>
  The result of \<open>JSON.parse(text)\<close> and of \<open>await response.json()\<close>: the SyntaxError
  thrown for a text that is not JSON (with its message), or the value the text denotes.
\<close>

datatype parse = SyntaxError string | Parsed jsval

subsection \<open>State\<close>

datatype status = Idle | Loading | Success | Error

datatype file_obj = File string string

text \<open>An \<open>EventSource\<close> with what its two handlers close over.\<close>

record eventsource =
  es_url :: string
  es_jobId :: jsval
  es_closed :: bool

text \<open>The calls the component makes on the browser and the network, in order.\<close>

datatype effect =
    NewEventSource string
  | Close nat
  | GetSession
  | Fetch string "string option" string file_obj
  | ConsoleError string string
  | Download string string

record app =
  url :: string
  resumeFile :: "file_obj option"
  status :: status
  errorMessage :: jsval
  jobId :: jsval
  logs :: "jsval list"
  report :: jsval
  deps :: "jsval option"
  cleanup :: "nat option"
  VITE_API_URL :: "string option"
  sources :: "eventsource list"
  effects :: "effect list"

text \<open>\<open>import.meta.env.VITE_API_URL || 'http://localhost:5000'\<close>\<close>

definition API_URL :: "app \<Rightarrow> string" where
  "API_URL s =
     (case VITE_API_URL s of
        None \<Rightarrow> ''http://localhost:5000''
      | Some u \<Rightarrow> if u = [] then ''http://localhost:5000'' else u)"

definition is_open :: "app \<Rightarrow> nat \<Rightarrow> bool" where
  "is_open s n = (n < length (sources s) \<and> \<not> es_closed (sources s ! n))"

subsection \<open>The stream effect (lines 34 to 78)\<close>

text \<open>\<open>eventSource.close()\<close> on the \<open>n\<close>-th \<open>EventSource\<close> created.\<close>

definition close :: "nat \<Rightarrow> app \<Rightarrow> app" where
  "close n s =
     s\<lparr>sources := (if n < length (sources s)
                    then (sources s)[n := (sources s ! n)\<lparr>es_closed := True\<rparr>]
                    else sources s),
       effects := effects s @ [Close n]\<rparr>"

text \<open>
  The body of the effect: the guard of line 35, then \<open>new EventSource\<close>; the two
  handlers are \<open>onmessage\<close> and \<open>onerror\<close> below, and the function returned closes
  the \<open>EventSource\<close> just created.
\<close>

definition stream_effect :: "app \<Rightarrow> app" where
  "stream_effect s =
     (if \<not> truthy (jobId s) \<or> status s = Error then s\<lparr>cleanup := None\<rparr>
      else s\<lparr>sources := sources s @
                 [\<lparr>es_url = API_URL s @ ''/api/stream-job/'' @ ToString (jobId s),
                   es_jobId = jobId s, es_closed = False\<rparr>],
             effects := effects s @
                 [NewEventSource (API_URL s @ ''/api/stream-job/'' @ ToString (jobId s))],
             cleanup := Some (length (sources s))\<rparr>)"

definition run_cleanup :: "app \<Rightarrow> app" where
  "run_cleanup s = (case cleanup s of None \<Rightarrow> s | Some n \<Rightarrow> close n s)"

text \<open>
  What React does after a batch of state updates: it renders, and an effect whose
  dependency \<open>[jobId]\<close> changed since its last run has the cleanup of that run called,
  then its body. On the first render the body always runs. React compares with
  \<open>Object.is\<close>; the code only ever moves the job identifier from null to a value of
  the server and back to null, where \<open>Object.is\<close> and equality of values agree.
  The evaluation of the JSX is not part of \<open>commit\<close>: \<open>renders\<close> below says when it
  returns, and the machine of this theory is the component as long as it does.
\<close>

definition commit :: "app \<Rightarrow> app" where
  "commit s =
     (if deps s = Some (jobId s) then s
      else stream_effect ((run_cleanup s)\<lparr>deps := Some (jobId s)\<rparr>))"

text \<open>\<open>eventSource.onmessage\<close> of the \<open>n\<close>-th source (lines 40 to 67).\<close>

definition console_error :: "string \<Rightarrow> string \<Rightarrow> app \<Rightarrow> app" where
  "console_error label msg s = s\<lparr>effects := effects s @ [ConsoleError label msg]\<rparr>"

definition on_complete :: "nat \<Rightarrow> jsval \<Rightarrow> app \<Rightarrow> app" where
  "on_complete n data s =
     (let s1 = close n (s\<lparr>report := js_or (get data ''report'') (Obj []),
                          status := Success\<rparr>)
      in if truthy (get data ''filename'')
         then s1\<lparr>effects := effects s1 @
                   [Download (API_URL s @ ''/api/download-pdf/''
                                @ ToString (es_jobId (sources s ! n)))
                             (ToString (get data ''filename''))]\<rparr>
         else s1)"

definition on_error_event :: "nat \<Rightarrow> jsval \<Rightarrow> app \<Rightarrow> app" where
  "on_error_event n data s =
     close n (s\<lparr>errorMessage := js_or (get data ''data'')
                                    (Str ''Unknown error during streaming''),
               status := Error\<rparr>)"

text \<open>The \<open>try\<close> block: \<open>Inl\<close> is the message of the exception it throws.\<close>

definition onmessage_try :: "nat \<Rightarrow> parse \<Rightarrow> app \<Rightarrow> string + app" where
  "onmessage_try n ev s =
     (case ev of
        SyntaxError m \<Rightarrow> Inl m
      | Parsed data \<Rightarrow>
          if nullish data then Inl (TypeError_message data ''type'')
          else if get data ''type'' = Str ''log''
            then Inr (s\<lparr>logs := logs s @ [get data ''data'']\<rparr>)
          else if get data ''type'' = Str ''complete'' then Inr (on_complete n data s)
          else if get data ''type'' = Str ''error'' then Inr (on_error_event n data s)
          else Inr s)"

text \<open>The handler: \<open>Inl\<close> would be an exception that leaves it.\<close>

definition onmessage :: "nat \<Rightarrow> parse \<Rightarrow> app \<Rightarrow> string + app" where
  "onmessage n ev s =
     (case onmessage_try n ev s of
        Inl err \<Rightarrow> Inr (console_error ''SSE Parse logic error'' err s)
      | Inr s' \<Rightarrow> Inr s')"

text \<open>\<open>eventSource.onerror\<close> (lines 69 to 73).\<close>

definition onerror :: "nat \<Rightarrow> app \<Rightarrow> app" where
  "onerror n s =
     close n (s\<lparr>errorMessage := Str ''Lost connection to server'', status := Error\<rparr>)"

subsection \<open>The submit handler (lines 80 to 131)\<close>

text \<open>
  What the awaited calls give back: \<open>getSession\<close> rejects or yields the access token of
  the session, if any; \<open>fetch\<close> rejects or yields a response with its \<open>ok\<close> flag, its
  status text and what \<open>response.json()\<close> makes of its body. A thrown value is
  represented by its \<open>message\<close>.
\<close>

datatype fetched = Rejected jsval | Response bool string parse

datatype outcome = SessionFailed jsval | Fetched "string option" fetched

text \<open>The \<open>catch\<close> of line 127.\<close>

definition catch_submit :: "jsval \<Rightarrow> app \<Rightarrow> app" where
  "catch_submit msg s = s\<lparr>errorMessage := msg, status := Error\<rparr>"

text \<open>Lines 114 to 123: the message of the \<open>Error\<close> thrown for a response that is not ok.\<close>

definition not_ok_message :: "string \<Rightarrow> parse \<Rightarrow> string" where
  "not_ok_message statusText body =
     (case body of
        SyntaxError m \<Rightarrow> ''Server error: '' @ statusText
      | Parsed errorData \<Rightarrow>
          if nullish errorData then ''Server error: '' @ statusText
          else ToString (js_or (get errorData ''error'')
                               (Str ''Failed to start optimization job.'')))"

text \<open>
  Line 98 calls \<open>supabase.auth.getSession()\<close> in the same turn as the reset of lines 88
  to 92; the handler is suspended at the \<open>await\<close> of that call.
\<close>

definition getSession_call :: "app \<Rightarrow> app" where
  "getSession_call s = s\<lparr>effects := effects s @ [GetSession]\<rparr>"

text \<open>
  The rest of lines 96 to 130, once the promise of \<open>getSession\<close> is settled, for the
  values of \<open>url\<close> and \<open>resumeFile\<close> the handler closed over.
\<close>

definition request :: "string \<Rightarrow> file_obj \<Rightarrow> outcome \<Rightarrow> app \<Rightarrow> app" where
  "request u f out s =
     (case out of
        SessionFailed msg \<Rightarrow> catch_submit msg s
      | Fetched token res \<Rightarrow>
          (let s1 = s\<lparr>effects := effects s @
                       [Fetch (API_URL s @ ''/api/start-optimization'')
                              (case token of None \<Rightarrow> None
                               | Some t \<Rightarrow> if t = [] then None else Some (''Bearer '' @ t))
                              u f]\<rparr>
           in case res of
                Rejected msg \<Rightarrow> catch_submit msg s1
              | Response ok statusText body \<Rightarrow>
                  if \<not> ok then catch_submit (Str (not_ok_message statusText body)) s1
                  else (case body of
                          SyntaxError m \<Rightarrow> catch_submit (Str m) s1
                        | Parsed data \<Rightarrow>
                            if nullish data
                            then catch_submit (Str (TypeError_message data ''job_id'')) s1
                            else s1\<lparr>jobId := get data ''job_id''\<rparr>)))"

text \<open>
  \<open>handleSubmit\<close>: the validation guard, the reset of lines 88 to 92 and the call of
  \<open>getSession\<close>, a render (the handler is suspended at its first \<open>await\<close> and React
  renders the batched updates), then the rest and another render.
\<close>

definition invalid_submit :: "app \<Rightarrow> app" where
  "invalid_submit s =
     s\<lparr>errorMessage := Str ''Please provide both a Job URL and your base Resume PDF.'',
       status := Error\<rparr>"

definition reset_for_submit :: "app \<Rightarrow> app" where
  "reset_for_submit s =
     s\<lparr>status := Loading, errorMessage := Str [], logs := [], report := Null,
       jobId := Null\<rparr>"

definition handleSubmit :: "outcome \<Rightarrow> app \<Rightarrow> app" where
  "handleSubmit out s =
     (case resumeFile s of
        None \<Rightarrow> commit (invalid_submit s)
      | Some f \<Rightarrow>
          if url s = [] then commit (invalid_submit s)
          else commit (request (url s) f out
                         (commit (getSession_call (reset_for_submit s)))))"

subsection \<open>The render (lines 139 to 354)\<close>

text \<open>
  The JSX reads the state at every render and throws on some values: line 288 calls
  \<open>log.toLowerCase()\<close> on every log line when the log box is shown, which is a
  TypeError unless the line is a string; a value placed as a child (\<open>errorMessage\<close> at
  line 261, \<open>match_score\<close> at line 309, \<open>raw\<close> or \<open>error\<close> at line 317, a
  keyword at lines 328 and 341) must not be an object, nor an array that holds one;
  and lines 326 and 339 call \<open>.map\<close> on a keyword list unless it is null or
  undefined, a TypeError unless it is an array. Nothing catches an exception of the
  render (\<open>main.tsx\<close> has no error boundary), so React removes the component.
\<close>

fun is_string :: "jsval \<Rightarrow> bool" where
  "is_string (Str s) = True"
| "is_string v = False"

fun valid_child :: "jsval \<Rightarrow> bool" where
  "valid_child (Obj fs) = False"
| "valid_child (Arr xs) = (\<forall>x \<in> set xs. valid_child x)"
| "valid_child v = True"

fun keywords_render :: "jsval \<Rightarrow> bool" where
  "keywords_render Undefined = True"
| "keywords_render Null = True"
| "keywords_render (Arr xs) = (\<forall>x \<in> set xs. valid_child x)"
| "keywords_render v = False"

definition report_renders :: "jsval \<Rightarrow> bool" where
  "report_renders r =
     (valid_child (js_or (get r ''match_score'') (Str ''-'')) \<and>
      (if truthy (js_or (get r ''error'') (get r ''raw''))
       then valid_child (js_or (get r ''raw'') (get r ''error''))
       else keywords_render (get r ''chosen_keywords'') \<and>
            keywords_render (get r ''missing_keywords'')))"

definition renders :: "app \<Rightarrow> bool" where
  "renders s =
     ((status s = Error \<longrightarrow> valid_child (errorMessage s)) \<and>
      (status s = Loading \<or> status s = Success \<or> (status s = Error \<and> logs s \<noteq> [])
         \<longrightarrow> (\<forall>l \<in> set (logs s). is_string l)) \<and>
      (status s = Success \<longrightarrow> report_renders (report s)))"

text \<open>The type \<open>ReportCard\<close> of lines 6 to 12: every field is optional.\<close>

fun is_number :: "jsval \<Rightarrow> bool" where
  "is_number (Num n) = True"
| "is_number v = False"

fun is_string_array :: "jsval \<Rightarrow> bool" where
  "is_string_array (Arr xs) = (\<forall>x \<in> set xs. is_string x)"
| "is_string_array v = False"

fun is_object :: "jsval \<Rightarrow> bool" where
  "is_object (Obj fs) = True"
| "is_object v = False"

definition optional :: "(jsval \<Rightarrow> bool) \<Rightarrow> jsval \<Rightarrow> bool" where
  "optional P v = (v = Undefined \<or> P v)"

definition ReportCard :: "jsval \<Rightarrow> bool" where
  "ReportCard r =
     (is_object r \<and>
      optional is_number (get r ''match_score'') \<and>
      optional is_string_array (get r ''chosen_keywords'') \<and>
      optional is_string_array (get r ''missing_keywords'') \<and>
      optional is_string (get r ''error'') \<and>
      optional is_string (get r ''raw''))"

subsection \<open>The component as a machine\<close>

text \<open>
  The initial values of \<open>useState\<close>, and the first render, which runs the effect.
\<close>

definition initial :: "string option \<Rightarrow> app" where
  "initial env =
     \<lparr>url = [], resumeFile = None, status = Idle, errorMessage = Str [], jobId = Null,
      logs = [], report = Null, deps = None, cleanup = None, VITE_API_URL = env,
      sources = [], effects = []\<rparr>"

definition mount :: "string option \<Rightarrow> app" where
  "mount env = commit (initial env)"

text \<open>
  What can happen to the mounted component: the user edits a field, submits the form or
  presses "Start a new job", and the browser delivers a message or a connection error
  of one of the \<open>EventSource\<close>s. The form controls carry
  \<open>disabled={status === 'loading' || status === 'success'}\<close>, the button "Start a new
  job" is rendered when \<open>status === 'success'\<close>, and the browser dispatches nothing on
  an \<open>EventSource\<close> after its \<open>close()\<close>. While \<open>handleSubmit\<close> is suspended the status
  is \<open>loading\<close> and the job identifier is null, so that nothing else can run in between:
  a submission is one step.
\<close>

datatype stream_event = Message parse | ConnectionError

datatype event =
    ChangeUrl string
  | ChangeFile "file_obj option"
  | Submit outcome
  | StartNewJob
  | Stream nat stream_event

definition form_disabled :: "app \<Rightarrow> bool" where
  "form_disabled s = (status s = Loading \<or> status s = Success)"

definition start_new_job :: "app \<Rightarrow> app" where
  "start_new_job s =
     s\<lparr>status := Idle, url := [], jobId := Null, report := Null, logs := []\<rparr>"

definition dispatch :: "nat \<Rightarrow> stream_event \<Rightarrow> app \<Rightarrow> app" where
  "dispatch n ev s =
     (case ev of
        Message m \<Rightarrow> (case onmessage n m s of Inl err \<Rightarrow> s | Inr s' \<Rightarrow> s')
      | ConnectionError \<Rightarrow> onerror n s)"

fun step :: "app \<Rightarrow> event \<Rightarrow> app" where
  "step s (ChangeUrl u) = (if form_disabled s then s else commit (s\<lparr>url := u\<rparr>))"
| "step s (ChangeFile f) = (if form_disabled s then s else commit (s\<lparr>resumeFile := f\<rparr>))"
| "step s (Submit out) = (if form_disabled s then s else handleSubmit out s)"
| "step s StartNewJob = (if status s = Success then commit (start_new_job s) else s)"
| "step s (Stream n ev) = (if is_open s n then commit (dispatch n ev s) else s)"

definition run :: "app \<Rightarrow> event list \<Rightarrow> app" where
  "run s es = foldl step s es"

text \<open>
  When React unmounts the component it calls the cleanup of the last effect run.
\<close>
definition unmount :: "app \<Rightarrow> app" where
  "unmount s = run_cleanup s"

subsection \<open>Observations of a run\<close>

text \<open>
  Reading the log of calls: the \<open>EventSource\<close>s open after each call, by their number
  in order of creation (the second component counts the creations).
\<close>
fun observe :: "nat list \<times> nat \<Rightarrow> effect \<Rightarrow> nat list \<times> nat" where
  "observe (live, k) (NewEventSource u) = (live @ [k], Suc k)"
| "observe (live, k) (Close n) = (removeAll n live, k)"
| "observe (live, k) e = (live, k)"

definition open_after :: "effect list \<Rightarrow> nat list" where
  "open_after log = fst (foldl observe ([], 0) log)"

text \<open>
  The job identifier that a submission obtains from the job-start endpoint and for
  which a stream can be opened: the truthy \<open>job_id\<close> of an ok response.
\<close>
fun issued :: "event \<Rightarrow> jsval list" where
  "issued (Submit (Fetched tok (Response ok st (Parsed d)))) =
     (if ok \<and> \<not> nullish d \<and> truthy (get d ''job_id'') then [get d ''job_id''] else [])"
| "issued e = []"

definition job_ids :: "event list \<Rightarrow> jsval list" where
  "job_ids es = concat (map issued es)"

text \<open>
  The events of a stream: a terminal event is a \<open>complete\<close> or \<open>error\<close> message or
  a failure of the connection; \<open>log_lines\<close> are the \<open>data\<close> of the \<open>log\<close> messages,
  in order.
\<close>
fun terminal :: "stream_event \<Rightarrow> bool" where
  "terminal ConnectionError = True"
| "terminal (Message (SyntaxError m)) = False"
| "terminal (Message (Parsed d)) =
     (get d ''type'' = Str ''complete'' \<or> get d ''type'' = Str ''error'')"

fun line_of :: "stream_event \<Rightarrow> jsval list" where
  "line_of (Message (Parsed d)) =
     (if get d ''type'' = Str ''log'' then [get d ''data''] else [])"
| "line_of e = []"

definition log_lines :: "stream_event list \<Rightarrow> jsval list" where
  "log_lines es = concat (map line_of es)"

text \<open>
  The events of a stream as the data model types them (\<open>StreamEvent\<close>): the \<open>data\<close> of a
  \<open>log\<close> message is a string, the \<open>report\<close> of a \<open>complete\<close> message is absent or a
  \<open>ReportCard\<close> and its \<open>filename\<close> absent or a string, and the \<open>data\<close> of an
  \<open>error\<close> message is absent or a string. Messages of no known type and payloads that
  are not JSON are not constrained.
\<close>
fun well_typed :: "stream_event \<Rightarrow> bool" where
  "well_typed (Message (Parsed d)) =
     (if get d ''type'' = Str ''log'' then is_string (get d ''data'')
      else if get d ''type'' = Str ''complete''
        then optional ReportCard (get d ''report'') \<and> optional is_string (get d ''filename'')
      else if get d ''type'' = Str ''error'' then optional is_string (get d ''data'')
      else True)"
| "well_typed e = True"

text \<open>
  The downloads of a call log, as pairs of URL and file name, in order.
\<close>
fun download_of :: "effect \<Rightarrow> (string \<times> string) list" where
  "download_of (Download h f) = [(h, f)]"
| "download_of e = []"

definition downloads :: "effect list \<Rightarrow> (string \<times> string) list" where
  "downloads log = concat (map download_of log)"

text \<open>
  Reading a call log from its start: every download comes after the creation of an
  \<open>EventSource\<close>, with no other download in between.
\<close>
fun arm :: "bool \<times> bool \<Rightarrow> effect \<Rightarrow> bool \<times> bool" where
  "arm (ok, armed) (NewEventSource u) = (ok, True)"
| "arm (ok, armed) (Download h f) = (ok \<and> armed, False)"
| "arm (ok, armed) e = (ok, armed)"

definition one_download_per_stream :: "effect list \<Rightarrow> bool" where
  "one_download_per_stream log = fst (foldl arm (True, False) log)"

subsection \<open>Invariants\<close>

text \<open>
  The invariant of the component between two events: the effect has run for the current
  job identifier, and an \<open>EventSource\<close> that is still open is the one the pending
  cleanup closes, belongs to the current job identifier and is being waited for.
\<close>
definition settled :: "app \<Rightarrow> bool" where
  "settled s \<longleftrightarrow>
     deps s = Some (jobId s) \<and>
     (\<forall>n. is_open s n \<longrightarrow>
        cleanup s = Some n \<and> status s = Loading \<and> es_jobId (sources s ! n) = jobId s)"

text \<open>
  At most one \<open>EventSource\<close> is open after every prefix of a log read from a given
  state; \<open>tracked\<close> ties the log to the \<open>EventSource\<close> objects of the state.
\<close>
definition exclusive :: "nat list \<times> nat \<Rightarrow> effect list \<Rightarrow> bool" where
  "exclusive st log \<longleftrightarrow> (\<forall>i. length (fst (foldl observe st (take i log))) \<le> 1)"

definition open_list :: "app \<Rightarrow> nat list" where
  "open_list s = filter (is_open s) [0..<length (sources s)]"

definition tracked :: "app \<Rightarrow> bool" where
  "tracked s \<longleftrightarrow>
     foldl observe ([], 0) (effects s) = (open_list s, length (sources s)) \<and>
     exclusive ([], 0) (effects s)"

text \<open>
  Every open \<open>EventSource\<close> is the one the pending cleanup closes.
\<close>
definition owned :: "app \<Rightarrow> bool" where
  "owned s \<longleftrightarrow> (\<forall>n. is_open s n \<longrightarrow> cleanup s = Some n)"

text \<open>
  The calls that are not made on an \<open>EventSource\<close>.
\<close>
fun inert :: "effect \<Rightarrow> bool" where
  "inert (NewEventSource u) = False"
| "inert (Close n) = False"
| "inert e = True"

text \<open>
  What a message that is dropped leaves on the console.
\<close>
fun console_of :: "stream_event \<Rightarrow> effect list" where
  "console_of (Message (SyntaxError m)) = [ConsoleError ''SSE Parse logic error'' m]"
| "console_of (Message (Parsed d)) =
     (if nullish d then [ConsoleError ''SSE Parse logic error'' (TypeError_message d ''type'')]
      else [])"
| "console_of ConnectionError = []"

text \<open>
  The download that an event triggers in a state.
\<close>
fun fired :: "app \<Rightarrow> event \<Rightarrow> (string \<times> string) list" where
  "fired s (Stream n (Message (Parsed d))) =
     (if is_open s n \<and> get d ''type'' = Str ''complete'' \<and> truthy (get d ''filename'')
      then [(API_URL s @ ''/api/download-pdf/'' @ ToString (jobId s),
             ToString (get d ''filename''))]
      else [])"
| "fired s e = []"

text \<open>
  From one state to a later one the configuration is the same, \<open>EventSource\<close>s are
  only added, and a closed one stays closed.
\<close>
definition grows :: "app \<Rightarrow> app \<Rightarrow> bool" where
  "grows s s' \<longleftrightarrow>
     VITE_API_URL s' = VITE_API_URL s \<and> length (sources s) \<le> length (sources s') \<and>
     (\<forall>m < length (sources s).
        es_jobId (sources s' ! m) = es_jobId (sources s ! m) \<and>
        (es_closed (sources s ! m) \<longrightarrow> es_closed (sources s' ! m)))"

text \<open>
  The download URL of a job, and the invariant of the downloads: no URL twice, and each
  is the URL of a closed stream.
\<close>
definition download_url :: "app \<Rightarrow> jsval \<Rightarrow> string" where
  "download_url s j = API_URL s @ ''/api/download-pdf/'' @ ToString j"

definition dl_inv :: "app \<Rightarrow> bool" where
  "dl_inv s \<longleftrightarrow>
     distinct (map fst (downloads (effects s))) \<and>
     (\<forall>h \<in> set (map fst (downloads (effects s))).
        \<exists>m < length (sources s). es_closed (sources s ! m) \<and>
          h = download_url s (es_jobId (sources s ! m)))"

text \<open>
  The invariant behind \<open>one_download_per_stream\<close>: while an \<open>EventSource\<close> is open,
  no download has been fired since its creation.
\<close>
definition armed_inv :: "app \<Rightarrow> bool" where
  "armed_inv s \<longleftrightarrow>
     fst (foldl arm (True, False) (effects s)) \<and>
     ((\<exists>n. is_open s n) \<longrightarrow> snd (foldl arm (True, False) (effects s)))"

text \<open>
  The calls that neither create an \<open>EventSource\<close> nor fire a download.
\<close>
fun quiet_call :: "effect \<Rightarrow> bool" where
  "quiet_call (NewEventSource u) = False"
| "quiet_call (Download h f) = False"
| "quiet_call e = True"

subsection \<open>Scenarios\<close>

text \<open>Scenario A of the specification.\<close>
definition fill_form :: "event list" where
  "fill_form = [ChangeUrl ''https://x'', ChangeFile (Some (File ''resume.pdf'' ''%PDF''))]"

definition job_started :: "string \<Rightarrow> event" where
  "job_started j =
     Submit (Fetched (Some ''token'') (Response True ''OK'' (Parsed (Obj [(''job_id'', Str j)]))))"

definition log_event :: "string \<Rightarrow> stream_event" where
  "log_event l = Message (Parsed (Obj [(''type'', Str ''log''), (''data'', Str l)]))"

definition complete_event :: jsval where
  "complete_event =
     Obj [(''type'', Str ''complete''),
          (''report'', Obj [(''match_score'', Num 82), (''chosen_keywords'', Arr [Str ''SQL'']),
                           (''missing_keywords'', Arr [Str ''Go''])]),
          (''filename'', Str ''tailored.pdf'')]"

definition job_running :: "event list" where
  "job_running =
     fill_form @ [job_started ''abc'', Stream 0 (log_event ''parsing''),
       Stream 0 (log_event ''scoring'')]"

definition scenario_A :: "event list" where
  "scenario_A = job_running @ [Stream 0 (Message (Parsed complete_event))]"

text \<open>Scenario C of the specification, after one log line.\<close>
definition error_event :: jsval where
  "error_event = Obj [(''type'', Str ''error''), (''data'', Str ''upstream timeout'')]"

text \<open>A job whose stream fails after one log line; the user then empties the URL field.\<close>
definition failed_job :: "event list" where
  "failed_job =
     fill_form @ [job_started ''abc'', Stream 0 (log_event ''parsing''),
       Stream 0 (Message (Parsed error_event)), ChangeUrl []]"

text \<open>The failed job again, with a new URL typed in.\<close>
definition retry_form :: "event list" where
  "retry_form = failed_job @ [ChangeUrl ''https://y'']"

text \<open>
  Two jobs one after the other, the second started from "Start a new job": with
  different identifiers, and with the same identifier handed out again.
\<close>
definition second_job :: "string \<Rightarrow> event list" where
  "second_job j = scenario_A @ [StartNewJob, ChangeUrl ''https://y'', job_started j]"

section \<open>Properties\<close>

lemma commit_id: "deps s = Some (jobId s) \<Longrightarrow> commit s = s"
  by (simp add: commit_def)

lemma commit_frame [simp]:
  "url (commit s) = url s" "resumeFile (commit s) = resumeFile s"
  "status (commit s) = status s" "errorMessage (commit s) = errorMessage s"
  "jobId (commit s) = jobId s" "logs (commit s) = logs s" "report (commit s) = report s"
  "VITE_API_URL (commit s) = VITE_API_URL s" "deps (commit s) = Some (jobId s)"
  by (simp_all add: commit_def stream_effect_def run_cleanup_def close_def split: option.split)

lemma is_open_update [simp]:
  "is_open (s\<lparr>url := a\<rparr>) = is_open s" "is_open (s\<lparr>resumeFile := b\<rparr>) = is_open s"
  "is_open (s\<lparr>status := c\<rparr>) = is_open s" "is_open (s\<lparr>errorMessage := d\<rparr>) = is_open s"
  "is_open (s\<lparr>jobId := e\<rparr>) = is_open s" "is_open (s\<lparr>logs := f\<rparr>) = is_open s"
  "is_open (s\<lparr>report := g\<rparr>) = is_open s" "is_open (s\<lparr>deps := h\<rparr>) = is_open s"
  "is_open (s\<lparr>cleanup := i\<rparr>) = is_open s" "is_open (s\<lparr>effects := j\<rparr>) = is_open s"
  by (simp_all add: is_open_def fun_eq_iff)

lemma is_open_close: "is_open (close n s) m \<longleftrightarrow> is_open s m \<and> m \<noteq> n"
  by (cases "n < length (sources s)") (auto simp: is_open_def close_def nth_list_update)

lemma is_open_run_cleanup:
  "is_open (run_cleanup s) m \<longleftrightarrow> is_open s m \<and> cleanup s \<noteq> Some m"
  by (auto simp: run_cleanup_def is_open_close split: option.split)

lemma is_open_stream_effect:
  "is_open (stream_effect s) m \<longleftrightarrow>
     is_open s m \<or> (truthy (jobId s) \<and> status s \<noteq> Error \<and> m = length (sources s))"
  by (auto simp: stream_effect_def is_open_def nth_append)

lemma close_frame [simp]:
  "url (close n s) = url s" "resumeFile (close n s) = resumeFile s"
  "status (close n s) = status s" "errorMessage (close n s) = errorMessage s"
  "jobId (close n s) = jobId s" "logs (close n s) = logs s" "report (close n s) = report s"
  "VITE_API_URL (close n s) = VITE_API_URL s" "deps (close n s) = deps s"
  "cleanup (close n s) = cleanup s" "length (sources (close n s)) = length (sources s)"
  "es_jobId (sources (close n s) ! m) = es_jobId (sources s ! m)"
  "map es_jobId (sources (close n s)) = map es_jobId (sources s)"
  by (simp_all add: close_def nth_list_update map_update list_update_same_conv)

lemma run_cleanup_frame [simp]:
  "url (run_cleanup s) = url s" "resumeFile (run_cleanup s) = resumeFile s"
  "status (run_cleanup s) = status s" "errorMessage (run_cleanup s) = errorMessage s"
  "jobId (run_cleanup s) = jobId s" "logs (run_cleanup s) = logs s" "report (run_cleanup s) = report s"
  "VITE_API_URL (run_cleanup s) = VITE_API_URL s" "deps (run_cleanup s) = deps s"
  "cleanup (run_cleanup s) = cleanup s" "length (sources (run_cleanup s)) = length (sources s)"
  "es_jobId (sources (run_cleanup s) ! m) = es_jobId (sources s ! m)"
  "map es_jobId (sources (run_cleanup s)) = map es_jobId (sources s)"
  by (simp_all add: run_cleanup_def split: option.split)

lemma is_open_commit:
  "is_open (commit s) m \<longleftrightarrow>
     (if deps s = Some (jobId s) then is_open s m
      else (is_open s m \<and> cleanup s \<noteq> Some m) \<or>
           (truthy (jobId s) \<and> status s \<noteq> Error \<and> m = length (sources s)))"
  by (simp add: commit_def is_open_stream_effect is_open_run_cleanup)

lemma cleanup_commit:
  "cleanup (commit s) =
     (if deps s = Some (jobId s) then cleanup s
      else if truthy (jobId s) \<and> status s \<noteq> Error then Some (length (sources s)) else None)"
  by (simp add: commit_def stream_effect_def)

lemma sources_commit_nth:
  "m < length (sources s) \<Longrightarrow> es_jobId (sources (commit s) ! m) = es_jobId (sources s ! m)"
  "deps s \<noteq> Some (jobId s) \<Longrightarrow> truthy (jobId s) \<Longrightarrow> status s \<noteq> Error \<Longrightarrow>
     es_jobId (sources (commit s) ! length (sources s)) = jobId s"
  by (simp_all add: commit_def stream_effect_def nth_append)

text \<open>commit from a state whose only open source, if any, is the one of the cleanup\<close>
lemma settled_commit:
  assumes "\<And>n. is_open s n \<Longrightarrow> cleanup s = Some n \<and> status s = Loading \<and> es_jobId (sources s ! n) = jobId s"
    "deps s \<noteq> Some (jobId s) \<Longrightarrow> status s = Loading \<or> \<not> truthy (jobId s) \<or> status s = Error"
  shows "settled (commit s)"
proof (cases "deps s = Some (jobId s)")
  case True
  then show ?thesis using assms by (simp add: commit_id settled_def)
next
  case False
  show ?thesis using False assms
    by (auto simp: settled_def is_open_commit cleanup_commit sources_commit_nth)
qed

lemma request_frame [simp]:
  "sources (request u f out s) = sources s" "deps (request u f out s) = deps s"
  "cleanup (request u f out s) = cleanup s" "url (request u f out s) = url s"
  "resumeFile (request u f out s) = resumeFile s" "logs (request u f out s) = logs s"
  "report (request u f out s) = report s" "VITE_API_URL (request u f out s) = VITE_API_URL s"
  "is_open (request u f out s) = is_open s"
  by (simp_all add: request_def catch_submit_def Let_def is_open_def fun_eq_iff
      split: outcome.split fetched.split parse.split)

lemma request_status:
  "status (request u f out s) = Error \<and> jobId (request u f out s) = jobId s \<or>
   status (request u f out s) = status s"
  by (simp add: request_def catch_submit_def Let_def
      split: outcome.split fetched.split parse.split)

lemma handler_frame [simp]:
  "deps (on_complete n d s) = deps s" "jobId (on_complete n d s) = jobId s"
  "cleanup (on_complete n d s) = cleanup s" "status (on_complete n d s) = Success"
  "deps (on_error_event n d s) = deps s" "jobId (on_error_event n d s) = jobId s"
  "cleanup (on_error_event n d s) = cleanup s" "status (on_error_event n d s) = Error"
  "deps (onerror n s) = deps s" "jobId (onerror n s) = jobId s"
  "cleanup (onerror n s) = cleanup s" "status (onerror n s) = Error"
  by (simp_all add: on_complete_def on_error_event_def onerror_def Let_def)

lemma is_open_handler [simp]:
  "is_open (on_complete n d s) m \<longleftrightarrow> is_open s m \<and> m \<noteq> n"
  "is_open (on_error_event n d s) m \<longleftrightarrow> is_open s m \<and> m \<noteq> n"
  "is_open (onerror n s) m \<longleftrightarrow> is_open s m \<and> m \<noteq> n"
  by (simp_all add: on_complete_def on_error_event_def onerror_def Let_def is_open_close)

lemma settled_open:
  "settled s \<Longrightarrow> is_open s n \<Longrightarrow>
     cleanup s = Some n \<and> status s = Loading \<and> es_jobId (sources s ! n) = jobId s"
  unfolding settled_def by blast

lemma settled_unique: "settled s \<Longrightarrow> is_open s n \<Longrightarrow> is_open s m \<Longrightarrow> m = n"
  using settled_open[of s n] settled_open[of s m] by simp

lemma settled_dispatch:
  assumes "settled s" "is_open s n"
  shows "settled (commit (dispatch n ev s))"
proof -
  have d: "deps (dispatch n ev s) = Some (jobId (dispatch n ev s))"
    using assms(1)
    by (auto simp: settled_def dispatch_def onmessage_def onmessage_try_def console_error_def
        split: stream_event.split parse.split)
  have u: "m = n" if "is_open s m" for m
    using assms that settled_unique by blast
  have "settled (dispatch n ev s)"
    using assms
    by (auto simp: settled_def dispatch_def onmessage_def onmessage_try_def console_error_def
        split: stream_event.split parse.split dest: u)
  then show ?thesis using d by (simp add: commit_id)
qed

lemma settled_quiet: "settled s \<Longrightarrow> \<not> form_disabled s \<Longrightarrow> \<not> is_open s n"
  by (auto simp: settled_def form_disabled_def)

lemma settled_handleSubmit:
  assumes "settled s" "\<not> form_disabled s"
  shows "settled (handleSubmit out s)"
proof -
  have q: "\<not> is_open s n" for n using assms by (rule settled_quiet)
  have inv: "settled (commit (invalid_submit s))"
    using assms(1) q by (simp add: settled_def invalid_submit_def commit_id)
  have val: "settled (commit (request u f out (commit (getSession_call (reset_for_submit s)))))" for u f
  proof (rule settled_commit)
    let ?s1 = "commit (getSession_call (reset_for_submit s))"
    have q1: "\<not> is_open ?s1 n" for n
      using q by (simp add: is_open_commit reset_for_submit_def getSession_call_def)
    show "is_open (request u f out ?s1) n \<Longrightarrow>
        cleanup (request u f out ?s1) = Some n \<and> status (request u f out ?s1) = Loading \<and>
        es_jobId (sources (request u f out ?s1) ! n) = jobId (request u f out ?s1)" for n
      using q1 by simp
    show "deps (request u f out ?s1) \<noteq> Some (jobId (request u f out ?s1)) \<Longrightarrow>
        status (request u f out ?s1) = Loading \<or> \<not> truthy (jobId (request u f out ?s1)) \<or>
        status (request u f out ?s1) = Error"
      using request_status[of u f out ?s1] by (auto simp: reset_for_submit_def getSession_call_def)
  qed
  show ?thesis using inv val by (simp add: handleSubmit_def split: option.split)
qed

lemma settled_step: "settled s \<Longrightarrow> settled (step s e)"
proof (cases e)
  case (ChangeUrl u)
  assume "settled s"
  then show ?thesis using ChangeUrl by (simp add: settled_def commit_id)
next
  case (ChangeFile f)
  assume "settled s"
  then show ?thesis using ChangeFile by (simp add: settled_def commit_id)
next
  case (Submit out)
  assume "settled s"
  then show ?thesis using Submit by (simp add: settled_handleSubmit)
next
  case StartNewJob
  assume a: "settled s"
  have "settled (commit (start_new_job s))" if "status s = Success"
  proof (rule settled_commit)
    have q: "\<not> is_open s n" for n using a that by (auto simp: settled_def)
    show "is_open (start_new_job s) n \<Longrightarrow>
        cleanup (start_new_job s) = Some n \<and> status (start_new_job s) = Loading \<and>
        es_jobId (sources (start_new_job s) ! n) = jobId (start_new_job s)" for n
      using q by (simp add: start_new_job_def)
    show "status (start_new_job s) = Loading \<or> \<not> truthy (jobId (start_new_job s)) \<or>
        status (start_new_job s) = Error"
      by (simp add: start_new_job_def)
  qed
  then show ?thesis using a StartNewJob by simp
next
  case (Stream n ev)
  assume "settled s"
  then show ?thesis using Stream by (simp add: settled_dispatch)
qed

lemma settled_mount: "settled (mount env)"
  unfolding mount_def
  by (rule settled_commit) (simp_all add: initial_def is_open_def)

lemma run_snoc: "run s (es @ [e]) = step (run s es) e"
  by (simp add: run_def)

lemma settled_run: "settled s \<Longrightarrow> settled (run s es)"
  by (induction es rule: rev_induct) (simp_all add: run_snoc settled_step, simp add: run_def)

lemma exclusive_append:
  "exclusive st (xs @ ys) \<longleftrightarrow> exclusive st xs \<and> exclusive (foldl observe st xs) ys"
proof
  assume a: "exclusive st (xs @ ys)"
  have "length (fst (foldl observe st (take i xs))) \<le> 1" for i
    using a[unfolded exclusive_def, rule_format, of "min i (length xs)"]
    by (simp add: min_def split: if_splits)
  moreover have "length (fst (foldl observe (foldl observe st xs) (take j ys))) \<le> 1" for j
    using a[unfolded exclusive_def, rule_format, of "length xs + j"] by simp
  ultimately show "exclusive st xs \<and> exclusive (foldl observe st xs) ys"
    by (simp add: exclusive_def)
next
  assume a: "exclusive st xs \<and> exclusive (foldl observe st xs) ys"
  show "exclusive st (xs @ ys)"
    unfolding exclusive_def
  proof
    fix i
    show "length (fst (foldl observe st (take i (xs @ ys)))) \<le> 1"
    proof (cases "i \<le> length xs")
      case True
      then show ?thesis using a by (simp add: exclusive_def)
    next
      case False
      then have "take i (xs @ ys) = xs @ take (i - length xs) ys" by simp
      then show ?thesis using a by (simp add: exclusive_def)
    qed
  qed
qed

lemma exclusive_single:
  "exclusive st [e] \<longleftrightarrow> length (fst st) \<le> 1 \<and> length (fst (observe st e)) \<le> 1"
proof -
  have "take i [e] = (if i = 0 then [] else [e])" for i by (cases i) simp_all
  then show ?thesis by (auto simp: exclusive_def)
qed

lemma is_open_sources: "sources s' = sources s \<Longrightarrow> is_open s' = is_open s"
  by (auto simp: is_open_def fun_eq_iff)

lemma distinct_all_eq:
  "distinct xs \<Longrightarrow> (\<And>x y. x \<in> set xs \<Longrightarrow> y \<in> set xs \<Longrightarrow> x = y) \<Longrightarrow> length xs \<le> 1"
proof (cases xs)
  case Nil
  then show ?thesis by simp
next
  case (Cons a as)
  assume d: "distinct xs" and e: "\<And>x y. x \<in> set xs \<Longrightarrow> y \<in> set xs \<Longrightarrow> x = y"
  have "as = []"
  proof (cases as)
    case Nil
    then show ?thesis .
  next
    case (Cons b bs)
    have "a = b" by (rule e) (simp_all add: \<open>xs = a # as\<close> Cons)
    then show ?thesis using d \<open>xs = a # as\<close> Cons by simp
  qed
  then show ?thesis using Cons by simp
qed

lemma open_list_sources: "sources s' = sources s \<Longrightarrow> open_list s' = open_list s"
  using is_open_sources[of s' s] by (simp add: open_list_def)

lemma set_open_list: "n \<in> set (open_list s) \<longleftrightarrow> is_open s n"
  by (auto simp: open_list_def is_open_def)

lemma open_list_close: "open_list (close n s) = removeAll n (open_list s)"
proof -
  have "filter (is_open (close n s)) xs = removeAll n (filter (is_open s) xs)" for xs
    by (induction xs) (auto simp: is_open_close)
  then show ?thesis by (simp add: open_list_def)
qed

lemma owned_open_list: "owned s \<Longrightarrow> length (open_list s) \<le> 1"
proof (rule distinct_all_eq)
  show "distinct (open_list s)" by (simp add: open_list_def)
next
  fix x y
  assume "owned s" "x \<in> set (open_list s)" "y \<in> set (open_list s)"
  then have "cleanup s = Some x" "cleanup s = Some y"
    unfolding owned_def set_open_list by blast+
  then show "x = y" by simp
qed

lemma tracked_close:
  assumes "tracked s" "length (open_list s) \<le> 1"
  shows "tracked (close n s)"
proof -
  have e: "effects (close n s) = effects s @ [Close n]" by (simp add: close_def)
  have "length (removeAll n (open_list s)) \<le> length (open_list s)"
    by (rule length_removeAll_less_eq)
  then have "length (removeAll n (open_list s)) \<le> 1"
    using assms(2) by linarith
  then show ?thesis
    using assms by (simp add: tracked_def e exclusive_append exclusive_single open_list_close)
qed

lemma tracked_run_cleanup: "tracked s \<Longrightarrow> owned s \<Longrightarrow> tracked (run_cleanup s)"
proof (cases "cleanup s")
  case None
  assume "tracked s"
  then show ?thesis using None by (simp add: run_cleanup_def)
next
  case (Some n)
  assume "tracked s" "owned s"
  then have "tracked (close n s)" by (intro tracked_close owned_open_list)
  then show ?thesis using Some by (simp add: run_cleanup_def)
qed

lemma quiet_open_list: "(\<And>n. \<not> is_open s n) \<Longrightarrow> open_list s = []"
  by (simp add: open_list_def)

lemma open_list_stream_effect:
  "open_list (stream_effect s) =
     (if \<not> truthy (jobId s) \<or> status s = Error then open_list s
      else open_list s @ [length (sources s)])"
proof (cases "\<not> truthy (jobId s) \<or> status s = Error")
  case True
  then have "stream_effect s = s\<lparr>cleanup := None\<rparr>" by (simp add: stream_effect_def)
  then show ?thesis
    using True by (simp add: open_list_sources[of "s\<lparr>cleanup := None\<rparr>" s])
next
  case False
  have l: "length (sources (stream_effect s)) = Suc (length (sources s))"
    using False by (simp add: stream_effect_def)
  have "filter (is_open (stream_effect s)) [0..<length (sources s)] = open_list s"
    unfolding open_list_def
    by (rule filter_cong) (auto simp: is_open_stream_effect)
  then show ?thesis
    using False by (simp add: open_list_def[of "stream_effect s"] l is_open_stream_effect)
qed

lemma tracked_stream_effect:
  assumes "tracked s" "open_list s = []"
  shows "tracked (stream_effect s)"
proof (cases "\<not> truthy (jobId s) \<or> status s = Error")
  case True
  then have "stream_effect s = s\<lparr>cleanup := None\<rparr>" by (simp add: stream_effect_def)
  then show ?thesis
    using assms(1) by (simp add: tracked_def open_list_sources[of "s\<lparr>cleanup := None\<rparr>" s])
next
  case False
  then have e: "effects (stream_effect s) = effects s @
      [NewEventSource (API_URL s @ ''/api/stream-job/'' @ ToString (jobId s))]"
    and l: "length (sources (stream_effect s)) = Suc (length (sources s))"
    by (simp_all add: stream_effect_def)
  show ?thesis
    using assms False
    by (simp add: tracked_def e l exclusive_append exclusive_single open_list_stream_effect)
qed

lemma tracked_commit:
  assumes "tracked s" "owned s"
  shows "tracked (commit s)"
proof (cases "deps s = Some (jobId s)")
  case True
  then show ?thesis using assms by (simp add: commit_id)
next
  case False
  let ?s1 = "(run_cleanup s)\<lparr>deps := Some (jobId s)\<rparr>"
  have t1: "tracked ?s1"
    using tracked_run_cleanup[OF assms]
    by (simp add: tracked_def open_list_sources[of ?s1 "run_cleanup s"])
  have "\<not> is_open ?s1 n" for n
    using assms(2) by (auto simp: is_open_run_cleanup owned_def)
  then have "open_list ?s1 = []" by (rule quiet_open_list)
  then show ?thesis using False t1 by (simp add: commit_def tracked_stream_effect)
qed

lemma observe_inert: "inert e \<Longrightarrow> observe st e = st"
  by (cases st; cases e) simp_all

lemma foldl_observe_inert: "list_all inert xs \<Longrightarrow> foldl observe st xs = st"
  by (induction xs) (simp_all add: observe_inert)

lemma exclusive_inert:
  "list_all inert xs \<Longrightarrow> length (fst st) \<le> 1 \<Longrightarrow> exclusive st xs"
proof -
  assume a: "list_all inert xs" "length (fst st) \<le> 1"
  have "list_all inert (take i xs)" for i
    using a(1) by (auto simp: list_all_iff dest: in_set_takeD)
  then show ?thesis using a(2) by (simp add: exclusive_def foldl_observe_inert)
qed

lemma tracked_le1: "tracked s \<Longrightarrow> length (open_list s) \<le> 1"
proof -
  assume "tracked s"
  then have "foldl observe ([], 0) (effects s) = (open_list s, length (sources s))"
    and "length (fst (foldl observe ([], 0) (take (length (effects s)) (effects s)))) \<le> 1"
    unfolding tracked_def exclusive_def by blast+
  then show ?thesis by simp
qed

lemma tracked_inert:
  assumes "tracked s" "sources s' = sources s" "effects s' = effects s @ xs" "list_all inert xs"
  shows "tracked s'"
  using assms tracked_le1[OF assms(1)] open_list_sources[OF assms(2)]
  by (simp add: tracked_def exclusive_append foldl_observe_inert exclusive_inert)

lemma tracked_same:
  "tracked s \<Longrightarrow> sources s' = sources s \<Longrightarrow> effects s' = effects s \<Longrightarrow> tracked s'"
  by (rule tracked_inert[where xs = "[]"]) simp_all

lemma tracked_close': "tracked s \<Longrightarrow> tracked (close n s)"
  using tracked_close[of s n] tracked_le1[of s] by blast

lemma owned_commit: "owned s \<Longrightarrow> owned (commit s)"
  by (auto simp: owned_def is_open_commit cleanup_commit split: if_splits)

lemma settled_owned: "settled s \<Longrightarrow> owned s"
  by (simp add: settled_def owned_def)

lemma request_effects:
  "\<exists>xs. effects (request u f out s) = effects s @ xs \<and> list_all inert xs"
  by (simp add: request_def catch_submit_def Let_def
      split: outcome.split fetched.split parse.split)

lemma tracked_request: "tracked s \<Longrightarrow> tracked (request u f out s)"
  using request_effects[of u f out s] by (auto intro: tracked_inert)

lemma tracked_on_complete: "tracked s \<Longrightarrow> tracked (on_complete n d s)"
proof -
  assume a: "tracked s"
  let ?s0 = "s\<lparr>report := js_or (get d ''report'') (Obj []), status := Success\<rparr>"
  have "tracked ?s0" using a by (rule tracked_same) simp_all
  then have c: "tracked (close n ?s0)" by (rule tracked_close')
  show ?thesis
  proof (cases "truthy (get d ''filename'')")
    case True
    show ?thesis
      by (rule tracked_inert[OF c, where xs = "[Download (API_URL s @ ''/api/download-pdf/''
                                @ ToString (es_jobId (sources s ! n)))
                             (ToString (get d ''filename''))]"])
        (simp_all add: on_complete_def Let_def True API_URL_def)
  next
    case False
    then show ?thesis using c by (simp add: on_complete_def Let_def)
  qed
qed

lemma tracked_on_error: "tracked s \<Longrightarrow> tracked (on_error_event n d s)" "tracked s \<Longrightarrow> tracked (onerror n s)"
proof -
  assume a: "tracked s"
  have "tracked (s\<lparr>errorMessage := m, status := Error\<rparr>)" for m
    using a by (rule tracked_same) simp_all
  then show "tracked (on_error_event n d s)" "tracked (onerror n s)"
    by (simp_all add: on_error_event_def onerror_def tracked_close')
qed

lemma tracked_dispatch: "tracked s \<Longrightarrow> tracked (dispatch n ev s)"
proof -
  assume a: "tracked s"
  have l: "tracked (s\<lparr>logs := x\<rparr>)" for x using a by (rule tracked_same) simp_all
  have c: "tracked (console_error lab m s)" for lab m
    by (rule tracked_inert[OF a, where xs = "[ConsoleError lab m]"])
      (simp_all add: console_error_def)
  show ?thesis
    using a l c
    by (simp add: dispatch_def onmessage_def onmessage_try_def tracked_on_complete
        tracked_on_error split: stream_event.split parse.split)
qed

lemma owned_dispatch: "settled s \<Longrightarrow> is_open s n \<Longrightarrow> owned (dispatch n ev s)"
  by (auto simp: owned_def dispatch_def onmessage_def onmessage_try_def console_error_def
      split: stream_event.split parse.split dest: settled_open)

lemma tracked_step:
  assumes "tracked s" "settled s"
  shows "tracked (step s e)"
proof (cases e)
  case (ChangeUrl u)
  have "tracked (s\<lparr>url := u\<rparr>)" using assms(1) by (rule tracked_same) simp_all
  then show ?thesis using assms ChangeUrl by (simp add: settled_def commit_id)
next
  case (ChangeFile f)
  have "tracked (s\<lparr>resumeFile := f\<rparr>)" using assms(1) by (rule tracked_same) simp_all
  then show ?thesis using assms ChangeFile by (simp add: settled_def commit_id)
next
  case (Submit out)
  have o: "owned s" using assms(2) by (rule settled_owned)
  have i: "tracked (commit (invalid_submit s))"
  proof (rule tracked_commit)
    show "tracked (invalid_submit s)"
      using assms(1) by (rule tracked_same) (simp_all add: invalid_submit_def)
    show "owned (invalid_submit s)" using o by (simp add: owned_def invalid_submit_def)
  qed
  have v: "tracked (commit (request u f out (commit (getSession_call (reset_for_submit s)))))" for u f
  proof (rule tracked_commit)
    have t0: "tracked (getSession_call (reset_for_submit s))"
      by (rule tracked_inert[OF assms(1), where xs = "[GetSession]"])
        (simp_all add: reset_for_submit_def getSession_call_def)
    have o0: "owned (getSession_call (reset_for_submit s))"
      using o by (simp add: owned_def reset_for_submit_def getSession_call_def)
    show "tracked (request u f out (commit (getSession_call (reset_for_submit s))))"
      using t0 o0 by (simp add: tracked_request tracked_commit)
    show "owned (request u f out (commit (getSession_call (reset_for_submit s))))"
      using owned_commit[OF o0] by (simp add: owned_def)
  qed
  show ?thesis using assms i v Submit by (simp add: handleSubmit_def split: option.split)
next
  case StartNewJob
  have "tracked (commit (start_new_job s))"
  proof (rule tracked_commit)
    show "tracked (start_new_job s)"
      using assms(1) by (rule tracked_same) (simp_all add: start_new_job_def)
    show "owned (start_new_job s)"
      using settled_owned[OF assms(2)] by (simp add: owned_def start_new_job_def)
  qed
  then show ?thesis using assms StartNewJob by simp
next
  case (Stream n ev)
  have "tracked (commit (dispatch n ev s))" if "is_open s n"
    using assms that by (simp add: tracked_commit tracked_dispatch owned_dispatch)
  then show ?thesis using assms Stream by simp
qed

lemma tracked_mount: "tracked (mount env)"
proof -
  have "tracked (initial env)"
    by (simp add: tracked_def initial_def open_list_def exclusive_def)
  moreover have "owned (initial env)" by (simp add: owned_def initial_def is_open_def)
  ultimately show ?thesis unfolding mount_def by (rule tracked_commit)
qed

lemma reachable_inv: "settled (run (mount env) es) \<and> tracked (run (mount env) es)"
proof (induction es rule: rev_induct)
  case Nil
  show ?case by (simp add: run_def settled_mount tracked_mount)
next
  case (snoc e es)
  then show ?case by (simp add: run_snoc settled_step tracked_step)
qed

lemma ids_commit:
  "map es_jobId (sources (commit s)) =
     map es_jobId (sources s) @
       (if deps s \<noteq> Some (jobId s) \<and> truthy (jobId s) \<and> status s \<noteq> Error
        then [jobId s] else [])"
  by (simp add: commit_def stream_effect_def)

lemma ids_handler [simp]:
  "map es_jobId (sources (on_complete n d s)) = map es_jobId (sources s)"
  "map es_jobId (sources (on_error_event n d s)) = map es_jobId (sources s)"
  "map es_jobId (sources (onerror n s)) = map es_jobId (sources s)"
  by (simp_all add: on_complete_def on_error_event_def onerror_def Let_def)

lemma ids_dispatch: "map es_jobId (sources (dispatch n ev s)) = map es_jobId (sources s)"
  by (simp add: dispatch_def onmessage_def onmessage_try_def console_error_def
      split: stream_event.split parse.split)

lemma request_jobId:
  "jobId (request u f out s) = jobId s \<or>
   status (request u f out s) = status s \<and>
     issued (Submit out) = (if truthy (jobId (request u f out s)) then [jobId (request u f out s)] else [])"
  by (simp add: request_def catch_submit_def Let_def
      split: outcome.split fetched.split parse.split)

lemma ids_step:
  assumes "settled s"
  shows "map es_jobId (sources (step s e)) = map es_jobId (sources s) \<or>
         map es_jobId (sources (step s e)) = map es_jobId (sources s) @ issued e"
proof (cases e)
  case (ChangeUrl u)
  then show ?thesis using assms by (simp add: settled_def commit_id)
next
  case (ChangeFile f)
  then show ?thesis using assms by (simp add: settled_def commit_id)
next
  case (Submit out)
  have d: "deps s = Some (jobId s)" using assms by (simp add: settled_def)
  have i: "map es_jobId (sources (commit (invalid_submit s))) = map es_jobId (sources s)"
    using d by (simp add: ids_commit invalid_submit_def)
  let ?s1 = "commit (getSession_call (reset_for_submit s))"
  have r: "map es_jobId (sources ?s1) = map es_jobId (sources s)"
    by (simp add: ids_commit reset_for_submit_def getSession_call_def)
  have "jobId ?s1 = Null" "status ?s1 = Loading" by (simp_all add: reset_for_submit_def getSession_call_def)
  then have v: "map es_jobId (sources (commit (request u f out ?s1))) = map es_jobId (sources s) \<or>
      map es_jobId (sources (commit (request u f out ?s1))) = map es_jobId (sources s) @ issued (Submit out)" for u f
    using request_jobId[of u f out ?s1] r by (auto simp: ids_commit)
  show ?thesis using i v Submit by (simp add: handleSubmit_def split: option.split)
next
  case StartNewJob
  then show ?thesis by (simp add: ids_commit start_new_job_def)
next
  case (Stream n ev)
  have "deps (dispatch n ev s) = Some (jobId (dispatch n ev s))"
    using assms
    by (auto simp: settled_def dispatch_def onmessage_def onmessage_try_def console_error_def
        split: stream_event.split parse.split)
  then show ?thesis using Stream by (simp add: commit_id ids_dispatch)
qed

lemma issued_truthy: "j \<in> set (issued e) \<Longrightarrow> truthy j"
  by (induction e rule: issued.induct) (auto split: if_splits)

lemma ids_run:
  "\<exists>js. map es_jobId (sources (run (mount env) es)) = js \<and> set js \<subseteq> set (job_ids es) \<and>
        (distinct (map ToString (job_ids es)) \<longrightarrow> distinct (map ToString js))"
proof (induction es rule: rev_induct)
  case Nil
  have "sources (mount env) = []" by (simp add: mount_def commit_def stream_effect_def run_cleanup_def initial_def)
  then show ?case by (simp add: run_def)
next
  case (snoc e es)
  let ?s = "run (mount env) es"
  have s: "settled ?s" using reachable_inv by blast
  have j: "job_ids (es @ [e]) = job_ids es @ issued e" by (simp add: job_ids_def)
  have l: "length (issued e) \<le> 1" by (induction e rule: issued.induct) simp_all
  from ids_step[OF s, of e] show ?case
  proof
    assume "map es_jobId (sources (step ?s e)) = map es_jobId (sources ?s)"
    then show ?thesis using snoc by (auto simp: run_snoc j)
  next
    assume a: "map es_jobId (sources (step ?s e)) = map es_jobId (sources ?s) @ issued e"
    have "distinct (map ToString (map es_jobId (sources ?s) @ issued e))"
      if "distinct (map ToString (job_ids es @ issued e))"
      using that snoc by (auto simp: image_iff subset_iff)
    then show ?thesis using snoc a by (auto simp: run_snoc j)
  qed
qed

lemma sources_truthy: "c \<in> set (sources (run (mount env) es)) \<Longrightarrow> truthy (es_jobId c)"
proof -
  assume "c \<in> set (sources (run (mount env) es))"
  then have "es_jobId c \<in> set (map es_jobId (sources (run (mount env) es)))" by simp
  then have "es_jobId c \<in> set (job_ids es)" using ids_run[of env es] by auto
  then show ?thesis by (auto simp: job_ids_def issued_truthy)
qed

text \<open>
  C1. At every moment of every run (at every prefix of the log of calls), at most one
  \<open>EventSource\<close> is open. No \<open>EventSource\<close> is ever created for a job identifier that
  is not truthy, and while the job identifier is null (or otherwise falsy) none is open.
  In any state, when the job identifier has changed, the render calls the pending
  cleanup, which closes the previous \<open>EventSource\<close>, and only then creates the next
  one, and creates none for a job identifier that is null.
\<close>
theorem one_stream_at_a_time:
  "length (open_after (take i (effects (run (mount env) es)))) \<le> 1 \<and>
   (\<forall>c \<in> set (sources (run (mount env) es)). truthy (es_jobId c)) \<and>
   (\<not> truthy (jobId (run (mount env) es)) \<longrightarrow>
      open_after (effects (run (mount env) es)) = []) \<and>
   (deps s \<noteq> Some (jobId s) \<longrightarrow>
      effects (commit s) =
        effects s @ (case cleanup s of None \<Rightarrow> [] | Some k \<Rightarrow> [Close k]) @
          (if truthy (jobId s) \<and> status s \<noteq> Error
           then [NewEventSource (API_URL s @ ''/api/stream-job/'' @ ToString (jobId s))]
           else []))"
proof -
  have 4: "effects (commit s) =
        effects s @ (case cleanup s of None \<Rightarrow> [] | Some k \<Rightarrow> [Close k]) @
          (if truthy (jobId s) \<and> status s \<noteq> Error
           then [NewEventSource (API_URL s @ ''/api/stream-job/'' @ ToString (jobId s))]
           else [])"
    if "deps s \<noteq> Some (jobId s)"
    using that
    by (simp add: commit_def stream_effect_def run_cleanup_def close_def API_URL_def
        split: option.split)
  let ?s = "run (mount env) es"
  have s: "settled ?s" and t: "tracked ?s" using reachable_inv by blast+
  have 1: "length (open_after (take i (effects ?s))) \<le> 1"
    using t by (simp add: tracked_def exclusive_def open_after_def)
  have 3: "open_after (effects ?s) = []" if f: "\<not> truthy (jobId ?s)"
  proof -
    have "\<not> is_open ?s n" for n
    proof
      assume o: "is_open ?s n"
      then have "sources ?s ! n \<in> set (sources ?s)" by (simp add: is_open_def)
      then have "truthy (es_jobId (sources ?s ! n))" by (rule sources_truthy)
      then show False using settled_open[OF s o] f by simp
    qed
    then have "open_list ?s = []" by (rule quiet_open_list)
    then show ?thesis using t by (simp add: tracked_def open_after_def)
  qed
  show ?thesis using 1 3 4 sources_truthy by blast
qed

theorem one_stream_at_a_time_witness:
  "\<not> truthy (jobId (run (mount None) (scenario_A @ [StartNewJob]))) \<and>
   open_after (effects (run (mount None) (scenario_A @ [StartNewJob]))) = [] \<and>
   length (open_after (take 3 (effects (run (mount None) (scenario_A @ [StartNewJob]))))) \<le> 1 \<and>
   deps (start_new_job (run (mount None) scenario_A))
     \<noteq> Some (jobId (start_new_job (run (mount None) scenario_A))) \<and>
   effects (commit (start_new_job (run (mount None) scenario_A))) =
     effects (start_new_job (run (mount None) scenario_A)) @ [Close 0]"
proof -
  have h: "\<not> truthy (jobId (run (mount None) (scenario_A @ [StartNewJob])))"
    by code_simp
  have d: "deps (start_new_job (run (mount None) scenario_A))
     \<noteq> Some (jobId (start_new_job (run (mount None) scenario_A)))"
    by code_simp
  have c: "cleanup (start_new_job (run (mount None) scenario_A)) = Some 0"
    by code_simp
  have j: "jobId (start_new_job (run (mount None) scenario_A)) = Null"
    by code_simp
  note t = one_stream_at_a_time[of 3 None "scenario_A @ [StartNewJob]"
      "start_new_job (run (mount None) scenario_A)"]
  have "effects (commit (start_new_job (run (mount None) scenario_A))) =
     effects (start_new_job (run (mount None) scenario_A)) @ [Close 0]"
    using conjunct2[OF conjunct2[OF conjunct2[OF t]], rule_format, OF d] c j by simp
  then show ?thesis using h d t by blast
qed

lemma get_nullish: "nullish d \<Longrightarrow> get d k = Undefined"
  by (auto simp: nullish_def)

lemma settled_logs [simp]: "settled (s\<lparr>logs := l, effects := x\<rparr>) = settled s"
  by (simp add: settled_def is_open_def)

lemma is_open_logs [simp]: "is_open (s\<lparr>logs := l, effects := x\<rparr>) = is_open s"
  by (simp add: is_open_def fun_eq_iff)

lemma nonterminal_step:
  assumes "settled s" "is_open s n" "\<not> terminal ev"
  shows "step s (Stream n ev) = s\<lparr>logs := logs s @ line_of ev, effects := effects s @ console_of ev\<rparr>"
proof -
  have d: "deps s = Some (jobId s)" using assms(1) by (simp add: settled_def)
  have "dispatch n ev s = s\<lparr>logs := logs s @ line_of ev, effects := effects s @ console_of ev\<rparr>"
  proof (cases ev)
    case (Message m)
    then show ?thesis
      using assms(3)
      by (cases m) (auto simp: dispatch_def onmessage_def onmessage_try_def console_error_def
          get_nullish)
  next
    case ConnectionError
    then show ?thesis using assms(3) by simp
  qed
  then show ?thesis using assms(2) d by (simp add: commit_id)
qed

lemma run_Cons: "run s (e # es) = run (step s e) es"
  by (simp add: run_def)

lemma run_append: "run s (es @ es') = run (run s es) es'"
  by (simp add: run_def)

lemma nonterminal_run:
  "settled s \<Longrightarrow> is_open s n \<Longrightarrow> \<forall>e\<in>set pre. \<not> terminal e \<Longrightarrow>
   run s (map (Stream n) pre) =
     s\<lparr>logs := logs s @ log_lines pre, effects := effects s @ concat (map console_of pre)\<rparr>"
proof (induction pre arbitrary: s)
  case Nil
  then show ?case by (simp add: run_def log_lines_def)
next
  case (Cons e pre)
  let ?s1 = "s\<lparr>logs := logs s @ line_of e, effects := effects s @ console_of e\<rparr>"
  have 1: "step s (Stream n e) = ?s1"
    by (rule nonterminal_step) (use Cons.prems in simp_all)
  have "run ?s1 (map (Stream n) pre) =
      ?s1\<lparr>logs := logs ?s1 @ log_lines pre, effects := effects ?s1 @ concat (map console_of pre)\<rparr>"
    using Cons.prems by (intro Cons.IH) simp_all
  then show ?case using 1 by (simp add: run_Cons log_lines_def)
qed

lemma closed_run: "\<not> is_open s n \<Longrightarrow> run s (map (Stream n) post) = s"
  by (induction post) (simp_all add: run_Cons, simp add: run_def)

lemma terminal_step:
  assumes "settled s" "is_open s n"
  shows "get d ''type'' = Str ''complete'' \<Longrightarrow>
           step s (Stream n (Message (Parsed d))) = on_complete n d s"
    and "get d ''type'' = Str ''error'' \<Longrightarrow>
           step s (Stream n (Message (Parsed d))) = on_error_event n d s"
    and "step s (Stream n ConnectionError) = onerror n s"
proof -
  have d: "deps s = Some (jobId s)" using assms(1) by (simp add: settled_def)
  show "get d ''type'' = Str ''complete'' \<Longrightarrow>
           step s (Stream n (Message (Parsed d))) = on_complete n d s"
    using assms(2) d
    by (cases "nullish d") (auto simp: get_nullish dispatch_def onmessage_def onmessage_try_def commit_id)
  show "get d ''type'' = Str ''error'' \<Longrightarrow>
           step s (Stream n (Message (Parsed d))) = on_error_event n d s"
    using assms(2) d
    by (cases "nullish d") (auto simp: get_nullish dispatch_def onmessage_def onmessage_try_def commit_id)
  show "step s (Stream n ConnectionError) = onerror n s"
    using assms(2) d by (simp add: dispatch_def commit_id)
qed

lemma is_string_child: "is_string v \<Longrightarrow> valid_child v"
  by (cases v) simp_all

lemma is_number_child: "is_number v \<Longrightarrow> valid_child v"
  by (cases v) simp_all

lemma string_array_keywords: "is_string_array v \<Longrightarrow> keywords_render v"
  by (cases v) (simp_all add: is_string_child)

lemma optional_child:
  "optional is_string v \<Longrightarrow> valid_child v" "optional is_number v \<Longrightarrow> valid_child v"
  "optional is_string_array v \<Longrightarrow> keywords_render v"
  by (auto simp: optional_def is_string_child is_number_child string_array_keywords)

lemma ReportCard_renders: "ReportCard r \<Longrightarrow> report_renders r"
  by (simp add: ReportCard_def report_renders_def js_or_def optional_child)

lemma empty_report_renders: "report_renders (Obj [])"
  by (simp add: report_renders_def js_or_def)

lemma recorded_report_renders:
  "optional ReportCard r \<Longrightarrow> report_renders (js_or r (Obj []))"
  by (auto simp: optional_def js_or_def ReportCard_renders empty_report_renders)

lemma typed_lines: "\<forall>e\<in>set pre. well_typed e \<Longrightarrow> \<forall>l\<in>set (log_lines pre). is_string l"
proof (induction pre)
  case Nil
  show ?case by (simp add: log_lines_def)
next
  case (Cons e pre)
  have "\<forall>l\<in>set (line_of e). is_string l"
    using Cons.prems by (induction e rule: line_of.induct) (simp_all split: if_splits)
  then show ?case using Cons by (auto simp: log_lines_def)
qed

lemma renders_loading:
  assumes "status s = Loading" "\<forall>l\<in>set (logs s). is_string l" "\<forall>l\<in>set ls. is_string l"
  shows "renders (s\<lparr>logs := logs s @ ls, effects := x\<rparr>)"
  using assms by (auto simp: renders_def)

text \<open>Every state of a typed stream before its terminal event is displayed.\<close>
lemma renders_prefix:
  assumes "settled s" "is_open s n" "renders s"
    "\<forall>e\<in>set pre. \<not> terminal e \<and> well_typed e"
  shows "renders (run s (map (Stream n) (take i pre)))"
proof -
  have p: "\<forall>e\<in>set (take i pre). \<not> terminal e" "\<forall>e\<in>set (take i pre). well_typed e"
    using assms(4) by (auto dest: in_set_takeD)
  have l: "status s = Loading" using settled_open[OF assms(1,2)] by simp
  then have ls: "\<forall>l\<in>set (logs s). is_string l" using assms(3) by (simp add: renders_def)
  have "run s (map (Stream n) (take i pre)) =
      s\<lparr>logs := logs s @ log_lines (take i pre),
        effects := effects s @ concat (map console_of (take i pre))\<rparr>"
    using assms(1,2) p(1) by (rule nonterminal_run)
  then show ?thesis using renders_loading[OF l ls typed_lines[OF p(2)]] by simp
qed

text \<open>
  C2. On a stream of typed events whose first terminal event is a \<open>complete\<close> event,
  the handler records the report of that event (an empty object when the event has
  none), sets the status to success and closes the connection; whatever the stream
  delivers afterwards leaves the whole state as it is. Every state on the way is
  displayed: no render throws, so that the machine is the component throughout.
\<close>
theorem complete_ends_stream:
  assumes "s = run (mount env) es" and "is_open s n" and "renders s"
    and "\<forall>e\<in>set pre. \<not> terminal e \<and> well_typed e"
    and "get d ''type'' = Str ''complete''" and "well_typed (Message (Parsed d))"
  shows "let s1 = run s (map (Stream n) (pre @ [Message (Parsed d)])) in
           (\<forall>i. renders (run s (map (Stream n) (take i (pre @ [Message (Parsed d)]))))) \<and>
           report s1 = (if truthy (get d ''report'') then get d ''report'' else Obj []) \<and>
           (get d ''report'' = Undefined \<longrightarrow> report s1 = Obj []) \<and>
           status s1 = Success \<and>
           n < length (sources s1) \<and> es_closed (sources s1 ! n) \<and>
           run s1 (map (Stream n) post) = s1"
proof -
  have st: "settled s" using assms(1) reachable_inv by blast
  have nt: "\<forall>e\<in>set pre. \<not> terminal e" and wt: "\<forall>e\<in>set pre. well_typed e"
    using assms(4) by simp_all
  let ?s0 = "run s (map (Stream n) pre)"
  have 0: "?s0 = s\<lparr>logs := logs s @ log_lines pre, effects := effects s @ concat (map console_of pre)\<rparr>"
    using st assms(2) nt by (rule nonterminal_run)
  have st0: "settled ?s0" and o0: "is_open ?s0 n" using st assms(2) by (simp_all add: 0)
  have l: "status s = Loading" using settled_open[OF st assms(2)] by simp
  then have ls: "\<forall>l\<in>set (logs s). is_string l" using assms(3) by (simp add: renders_def)
  have ls0: "\<forall>l\<in>set (logs ?s0). is_string l" using ls typed_lines[OF wt] by (auto simp: 0)
  define s1 where "s1 = run s (map (Stream n) (pre @ [Message (Parsed d)]))"
  have 1: "s1 = on_complete n d ?s0"
    using terminal_step(1)[OF st0 o0 assms(5)] by (simp add: s1_def run_append run_Cons run_def)
  have c: "\<not> is_open s1 n" by (simp add: 1)
  have ln: "n < length (sources s1)"
    using o0 by (simp add: 1 on_complete_def Let_def is_open_def)
  have r: "report s1 = js_or (get d ''report'') (Obj [])"
    by (simp add: 1 on_complete_def Let_def close_def)
  have lg: "logs s1 = logs ?s0" by (simp add: 1 on_complete_def Let_def close_def)
  have su: "status s1 = Success" by (simp add: 1)
  have "optional ReportCard (get d ''report'')" using assms(5,6) by simp
  then have "report_renders (report s1)" unfolding r by (rule recorded_report_renders)
  then have r1: "renders s1" using su lg ls0 by (simp add: renders_def)
  have rn: "renders (run s (map (Stream n) (take i (pre @ [Message (Parsed d)]))))" for i
  proof (cases "i \<le> length pre")
    case True
    then have "take i (pre @ [Message (Parsed d)]) = take i pre" by simp
    then show ?thesis using renders_prefix[OF st assms(2,3,4), of i] by (simp only:)
  next
    case False
    then have "take i (pre @ [Message (Parsed d)]) = pre @ [Message (Parsed d)]" by simp
    then show ?thesis using r1 by (simp only: s1_def)
  qed
  have "es_closed (sources s1 ! n)" using c ln by (simp add: is_open_def)
  moreover have "run s1 (map (Stream n) post) = s1" using c by (rule closed_run)
  ultimately show ?thesis
    unfolding Let_def s1_def[symmetric] using r ln su rn by (simp add: js_or_def)
qed

theorem complete_ends_stream_witness:
  "is_open (run (mount None) (fill_form @ [job_started ''abc''])) 0 \<and>
   renders (run (mount None) (fill_form @ [job_started ''abc''])) \<and>
   \<not> terminal (log_event ''parsing'') \<and> well_typed (log_event ''parsing'') \<and>
   \<not> terminal (Message (SyntaxError ''Unexpected token'')) \<and>
   \<not> terminal (log_event ''scoring'') \<and> well_typed (log_event ''scoring'') \<and>
   get complete_event ''type'' = Str ''complete'' \<and>
   well_typed (Message (Parsed complete_event)) \<and>
   (let s1 = run (run (mount None) (fill_form @ [job_started ''abc'']))
               (map (Stream 0)
                  ([log_event ''parsing'', Message (SyntaxError ''Unexpected token''),
                    log_event ''scoring''] @ [Message (Parsed complete_event)]))
    in report s1 = get complete_event ''report'' \<and> status s1 = Success \<and>
       renders s1 \<and> es_closed (sources s1 ! 0) \<and>
       run s1 (map (Stream 0) [log_event ''late'', ConnectionError]) = s1)"
proof -
  let ?pre = "[log_event ''parsing'', Message (SyntaxError ''Unexpected token''),
      log_event ''scoring'']"
  have 1: "is_open (run (mount None) (fill_form @ [job_started ''abc''])) 0"
    by code_simp
  have 2: "\<forall>e\<in>set ?pre. \<not> terminal e \<and> well_typed e"
    by (simp add: log_event_def)
  have 3: "get complete_event ''type'' = Str ''complete''"
    by (simp add: complete_event_def)
  have 4: "truthy (get complete_event ''report'')"
    by (simp add: complete_event_def)
  have 5: "renders (run (mount None) (fill_form @ [job_started ''abc'']))"
    by code_simp
  have 6: "well_typed (Message (Parsed complete_event))"
    by (simp add: complete_event_def optional_def ReportCard_def)
  note t = complete_ends_stream[OF refl 1 5 2 3 6, of "[log_event ''late'', ConnectionError]"]
  have 7: "renders (run (run (mount None) (fill_form @ [job_started ''abc'']))
               (map (Stream 0) (?pre @ [Message (Parsed complete_event)])))"
    using t[unfolded Let_def, THEN conjunct1, rule_format, of 4] by simp
  show ?thesis
    using 1 2 3 4 5 6 7 t by (simp add: Let_def)
qed

lemma submit_opens:
  assumes "settled s" "is_open (step s (Submit out)) n" "\<not> is_open s n"
  shows "logs (step s (Submit out)) = []"
proof -
  have d: "deps s = Some (jobId s)" using assms(1) by (simp add: settled_def)
  have i: "commit (invalid_submit s) = invalid_submit s"
    using d by (simp add: commit_id invalid_submit_def)
  have "\<not> is_open (invalid_submit s) n" using assms(3) by (simp add: invalid_submit_def)
  then show ?thesis
    using assms(2,3) i
    by (auto simp: handleSubmit_def reset_for_submit_def getSession_call_def split: option.splits if_splits)
qed

text \<open>
  C3. On a stream of typed events opened by a submission whose first terminal event is
  an \<open>error\<close> event or a failure of the connection, the status ends as error, the error
  message is the \<open>data\<close> of the error event (\<open>Unknown error during streaming\<close> when that
  is empty or absent) or \<open>Lost connection to server\<close>, the connection is closed, and the
  log buffer holds the lines of the \<open>log\<close> events received before the terminal event,
  in order, and nothing else. Every state on the way is displayed: no render throws.
\<close>
theorem error_ends_stream:
  assumes "s0 = run (mount env) es" and "s = step s0 (Submit out)"
    and "\<not> is_open s0 n" and "is_open s n"
    and "\<forall>e\<in>set pre. \<not> terminal e \<and> well_typed e"
    and "t = ConnectionError \<or> (\<exists>d. t = Message (Parsed d) \<and> get d ''type'' = Str ''error'')"
    and "well_typed t"
  shows "let s1 = run s (map (Stream n) (pre @ [t])) in
           (\<forall>i. renders (run s (map (Stream n) (take i (pre @ [t]))))) \<and>
           status s1 = Error \<and>
           (t = ConnectionError \<longrightarrow> errorMessage s1 = Str ''Lost connection to server'') \<and>
           (\<forall>d. t = Message (Parsed d) \<longrightarrow>
              errorMessage s1 = (if truthy (get d ''data'') then get d ''data''
                                 else Str ''Unknown error during streaming'')) \<and>
           n < length (sources s1) \<and> es_closed (sources s1 ! n) \<and>
           logs s1 = log_lines pre \<and>
           run s1 (map (Stream n) post) = s1"
proof -
  have st0: "settled s0" using assms(1) reachable_inv by blast
  have st: "settled s" using st0 assms(2) by (simp only: settled_step)
  have l0: "logs s = []" using submit_opens[OF st0 _ assms(3)] assms(4) unfolding assms(2) by blast
  have ld: "status s = Loading" using settled_open[OF st assms(4)] by simp
  have rs: "renders s" using l0 ld by (simp add: renders_def)
  have nt: "\<forall>e\<in>set pre. \<not> terminal e" and wt: "\<forall>e\<in>set pre. well_typed e"
    using assms(5) by simp_all
  let ?s0 = "run s (map (Stream n) pre)"
  have 0: "?s0 = s\<lparr>logs := logs s @ log_lines pre, effects := effects s @ concat (map console_of pre)\<rparr>"
    using st assms(4) nt by (rule nonterminal_run)
  have st0: "settled ?s0" and o0: "is_open ?s0 n" using st assms(4) by (simp_all add: 0)
  have lg: "logs ?s0 = log_lines pre" using l0 by (simp add: 0)
  define s1 where "s1 = run s (map (Stream n) (pre @ [t]))"
  have r: "s1 = step ?s0 (Stream n t)" by (simp add: s1_def run_append run_Cons run_def)
  have 1: "(t = ConnectionError \<longrightarrow> s1 = onerror n ?s0) \<and>
           (\<forall>d. t = Message (Parsed d) \<longrightarrow> s1 = on_error_event n d ?s0)"
    using assms(6) terminal_step(2,3)[OF st0 o0] unfolding r by auto
  have c: "\<not> is_open s1 n" using 1 assms(6) by auto
  have l: "n < length (sources s1)"
    using o0 1 assms(6) by (auto simp: on_error_event_def onerror_def is_open_def)
  have e: "status s1 = Error" using 1 assms(6) by auto
  have m1: "t = ConnectionError \<longrightarrow> errorMessage s1 = Str ''Lost connection to server''"
    using 1 by (auto simp: onerror_def)
  have m2: "\<forall>d. t = Message (Parsed d) \<longrightarrow>
              errorMessage s1 = (if truthy (get d ''data'') then get d ''data''
                                 else Str ''Unknown error during streaming'')"
    using 1 by (auto simp: on_error_event_def js_or_def)
  have cl: "es_closed (sources s1 ! n)" using c l by (simp add: is_open_def)
  have lg1: "logs s1 = log_lines pre"
    using 1 assms(6) lg by (auto simp: on_error_event_def onerror_def)
  have fr: "run s1 (map (Stream n) post) = s1" using c by (rule closed_run)
  have vc: "valid_child (errorMessage s1)"
    using assms(6,7) m1 m2 by (auto simp: optional_def is_string_child)
  have r1: "renders s1"
    using e vc lg1 typed_lines[OF wt] by (simp add: renders_def)
  have rn: "renders (run s (map (Stream n) (take i (pre @ [t]))))" for i
  proof (cases "i \<le> length pre")
    case True
    then have "take i (pre @ [t]) = take i pre" by simp
    then show ?thesis using renders_prefix[OF st assms(4) rs assms(5), of i] by (simp only:)
  next
    case False
    then have "take i (pre @ [t]) = pre @ [t]" by simp
    then show ?thesis using r1 by (simp only: s1_def)
  qed
  show ?thesis
    unfolding Let_def s1_def[symmetric]
    using rn e m1 m2 l cl lg1 fr by (intro conjI allI) blast+
qed

theorem error_ends_stream_witness:
  "\<not> is_open (run (mount None) fill_form) 0 \<and>
   is_open (step (run (mount None) fill_form) (job_started ''abc'')) 0 \<and>
   \<not> terminal (log_event ''parsing'') \<and> well_typed (log_event ''parsing'') \<and>
   get error_event ''type'' = Str ''error'' \<and>
   well_typed (Message (Parsed error_event)) \<and>
   status (run (step (run (mount None) fill_form) (job_started ''abc''))
            (map (Stream 0) ([log_event ''parsing''] @ [Message (Parsed error_event)]))) = Error \<and>
   errorMessage (run (step (run (mount None) fill_form) (job_started ''abc''))
            (map (Stream 0) ([log_event ''parsing''] @ [Message (Parsed error_event)])))
     = Str ''upstream timeout'' \<and>
   logs (run (step (run (mount None) fill_form) (job_started ''abc''))
            (map (Stream 0) ([log_event ''parsing''] @ [Message (Parsed error_event)])))
     = [Str ''parsing''] \<and>
   renders (run (step (run (mount None) fill_form) (job_started ''abc''))
            (map (Stream 0) ([log_event ''parsing''] @ [Message (Parsed error_event)])))"
proof -
  have 1: "\<not> is_open (run (mount None) fill_form) 0" by code_simp
  have 2: "is_open (step (run (mount None) fill_form) (job_started ''abc'')) 0" by code_simp
  have 3: "\<forall>e\<in>set [log_event ''parsing'']. \<not> terminal e \<and> well_typed e"
    by (simp add: log_event_def)
  have 4: "get error_event ''type'' = Str ''error''" by (simp add: error_event_def)
  have 5: "Message (Parsed error_event) = ConnectionError \<or>
      (\<exists>d. Message (Parsed error_event) = Message (Parsed d) \<and> get d ''type'' = Str ''error'')"
    using 4 by simp
  have 6: "get error_event ''data'' = Str ''upstream timeout''" by (simp add: error_event_def)
  have 7: "log_lines [log_event ''parsing''] = [Str ''parsing'']"
    by (simp add: log_lines_def log_event_def)
  have 8: "well_typed (Message (Parsed error_event))"
    by (simp add: error_event_def optional_def)
  note t = error_ends_stream[OF refl _ 1 _ 3 5 8,
        of "step (run (mount None) fill_form) (job_started ''abc'')"
        "Fetched (Some ''token'') (Response True ''OK'' (Parsed (Obj [(''job_id'', Str ''abc'')])))" "[]",
        unfolded Let_def job_started_def[symmetric], OF refl 2]
  have 9: "renders (run (step (run (mount None) fill_form) (job_started ''abc''))
            (map (Stream 0) ([log_event ''parsing''] @ [Message (Parsed error_event)])))"
    using t[THEN conjunct1, rule_format, of 2] by simp
  show ?thesis
    using 1 2 3 4 6 7 8 9 t by simp
qed

text \<open>
  C5. A submission without a URL or without a file ends in status error with the
  validation message; it makes no call at all (no session lookup, no request, no
  stream) and assigns no job identifier.
\<close>
theorem invalid_submission_makes_no_request:
  assumes "s = run (mount env) es" and "url s = [] \<or> resumeFile s = None"
  shows "status (handleSubmit out s) = Error \<and>
         errorMessage (handleSubmit out s) =
           Str ''Please provide both a Job URL and your base Resume PDF.'' \<and>
         effects (handleSubmit out s) = effects s \<and>
         sources (handleSubmit out s) = sources s \<and>
         jobId (handleSubmit out s) = jobId s"
proof -
  have "settled s" using assms(1) reachable_inv by blast
  then have "commit (invalid_submit s) = invalid_submit s"
    by (simp add: settled_def commit_id invalid_submit_def)
  then have "handleSubmit out s = invalid_submit s"
    using assms(2) by (auto simp: handleSubmit_def split: option.split)
  then show ?thesis by (simp add: invalid_submit_def)
qed

theorem invalid_submission_makes_no_request_witness:
  "resumeFile (run (mount None) [ChangeUrl ''https://x'']) = None \<and>
   status (handleSubmit (Fetched None (Rejected (Str ''Failed to fetch'')))
             (run (mount None) [ChangeUrl ''https://x''])) = Error \<and>
   effects (handleSubmit (Fetched None (Rejected (Str ''Failed to fetch'')))
             (run (mount None) [ChangeUrl ''https://x''])) = [] \<and>
   jobId (handleSubmit (Fetched None (Rejected (Str ''Failed to fetch'')))
             (run (mount None) [ChangeUrl ''https://x''])) = Null"
proof -
  have 1: "resumeFile (run (mount None) [ChangeUrl ''https://x'']) = None" by code_simp
  have 2: "effects (run (mount None) [ChangeUrl ''https://x'']) = []" by code_simp
  have 3: "jobId (run (mount None) [ChangeUrl ''https://x'']) = Null" by code_simp
  show ?thesis
    using 1 2 3 invalid_submission_makes_no_request[OF refl disjI2, OF 1,
        of "Fetched None (Rejected (Str ''Failed to fetch''))"]
    by simp
qed

text \<open>
  C6. A message whose payload is not JSON leaves the handler without an exception and
  changes nothing but the console: the status, the log buffer, the report and the error
  message stay as they are.
\<close>
theorem malformed_message_dropped:
  "onmessage n (SyntaxError m) s =
     Inr (s\<lparr>effects := effects s @ [ConsoleError ''SSE Parse logic error'' m]\<rparr>) \<and>
   status (dispatch n (Message (SyntaxError m)) s) = status s \<and>
   logs (dispatch n (Message (SyntaxError m)) s) = logs s \<and>
   report (dispatch n (Message (SyntaxError m)) s) = report s \<and>
   errorMessage (dispatch n (Message (SyntaxError m)) s) = errorMessage s \<and>
   step (run (mount env) es) (Stream n (Message (SyntaxError m))) =
     (if is_open (run (mount env) es) n
      then (run (mount env) es)\<lparr>effects := effects (run (mount env) es) @
                                     [ConsoleError ''SSE Parse logic error'' m]\<rparr>
      else run (mount env) es)"
proof -
  have "settled (run (mount env) es)" using reachable_inv by blast
  then have "deps (run (mount env) es) = Some (jobId (run (mount env) es))"
    by (simp add: settled_def)
  then show ?thesis
    by (simp add: onmessage_def onmessage_try_def console_error_def dispatch_def commit_id)
qed

text \<open>
  C7. A submission with a URL and a file first sets the status to loading, clears the
  error message, the log buffer, the report and the job identifier, and asks for the
  session; the component is rendered in that state, which is displayed, before the
  handler goes on. By then the only call made, apart from closing an \<open>EventSource\<close>, is
  the session lookup: the request is sent, and its response handled, afterwards. The
  log buffer and the report are still empty when the submission is over.
\<close>
theorem valid_submission_resets:
  assumes "url s \<noteq> []" and "resumeFile s = Some f"
  shows "let s1 = commit (getSession_call (reset_for_submit s)) in
           handleSubmit out s = commit (request (url s) f out s1) \<and>
           status s1 = Loading \<and> logs s1 = [] \<and> report s1 = Null \<and> jobId s1 = Null \<and>
           errorMessage s1 = Str [] \<and> renders s1 \<and>
           filter inert (effects s1) = filter inert (effects s) @ [GetSession] \<and>
           logs (handleSubmit out s) = [] \<and> report (handleSubmit out s) = Null"
proof -
  have "filter inert (effects (commit x)) = filter inert (effects x)" for x
    by (simp add: commit_def stream_effect_def run_cleanup_def close_def split: option.split)
  then have e: "filter inert (effects (commit (getSession_call (reset_for_submit s)))) =
      filter inert (effects s) @ [GetSession]"
    by (simp add: getSession_call_def reset_for_submit_def)
  have h: "handleSubmit out s =
      commit (request (url s) f out (commit (getSession_call (reset_for_submit s))))"
    using assms by (simp add: handleSubmit_def)
  have f: "status (commit (getSession_call (reset_for_submit s))) = Loading"
    "logs (commit (getSession_call (reset_for_submit s))) = []"
    "report (commit (getSession_call (reset_for_submit s))) = Null"
    "jobId (commit (getSession_call (reset_for_submit s))) = Null"
    "errorMessage (commit (getSession_call (reset_for_submit s))) = Str []"
    by (simp_all add: getSession_call_def reset_for_submit_def)
  have r: "renders (commit (getSession_call (reset_for_submit s)))"
    using f by (simp add: renders_def)
  have l: "logs (handleSubmit out s) = []" "report (handleSubmit out s) = Null"
    using f by (simp_all add: h)
  show ?thesis unfolding Let_def using h f r e l by (intro conjI)
qed

theorem valid_submission_resets_witness:
  "url (run (mount None) retry_form) \<noteq> [] \<and>
   resumeFile (run (mount None) retry_form) = Some (File ''resume.pdf'' ''%PDF'') \<and>
   status (run (mount None) retry_form) = Error \<and>
   errorMessage (run (mount None) retry_form) = Str ''upstream timeout'' \<and>
   logs (run (mount None) retry_form) = [Str ''parsing''] \<and>
   jobId (run (mount None) retry_form) = Str ''abc'' \<and>
   status (commit (getSession_call (reset_for_submit (run (mount None) retry_form)))) = Loading \<and>
   errorMessage (commit (getSession_call (reset_for_submit (run (mount None) retry_form))))
     = Str [] \<and>
   logs (commit (getSession_call (reset_for_submit (run (mount None) retry_form)))) = [] \<and>
   jobId (commit (getSession_call (reset_for_submit (run (mount None) retry_form)))) = Null \<and>
   effects (commit (getSession_call (reset_for_submit (run (mount None) retry_form)))) =
     effects (run (mount None) retry_form) @ [GetSession, Close 0] \<and>
   logs (handleSubmit (Fetched None (Rejected (Str ''Failed to fetch'')))
           (run (mount None) retry_form)) = []"
proof -
  have 1: "url (run (mount None) retry_form) \<noteq> []" by code_simp
  have 2: "resumeFile (run (mount None) retry_form) = Some (File ''resume.pdf'' ''%PDF'')"
    by code_simp
  have 3: "status (run (mount None) retry_form) = Error"
    "errorMessage (run (mount None) retry_form) = Str ''upstream timeout''"
    "logs (run (mount None) retry_form) = [Str ''parsing'']"
    "jobId (run (mount None) retry_form) = Str ''abc''"
    by code_simp+
  have 4: "effects (commit (getSession_call (reset_for_submit (run (mount None) retry_form)))) =
     effects (run (mount None) retry_form) @ [GetSession, Close 0]"
    by code_simp
  show ?thesis
    using 1 2 3 4
      valid_submission_resets[OF 1 2, of "Fetched None (Rejected (Str ''Failed to fetch''))"]
    by (simp add: Let_def)
qed

text \<open>
  C10. A submission that fails the validation changes the status and the error message
  and nothing else: the job identifier, the log buffer and the report stay as they were.
\<close>
theorem invalid_submission_frame:
  assumes "s = run (mount env) es" and "url s = [] \<or> resumeFile s = None"
  shows "handleSubmit out s =
           s\<lparr>errorMessage := Str ''Please provide both a Job URL and your base Resume PDF.'',
             status := Error\<rparr> \<and>
         jobId (handleSubmit out s) = jobId s \<and>
         logs (handleSubmit out s) = logs s \<and>
         report (handleSubmit out s) = report s"
proof -
  have "settled s" using assms(1) reachable_inv by blast
  then have "commit (invalid_submit s) = invalid_submit s"
    by (simp add: settled_def commit_id invalid_submit_def)
  then have "handleSubmit out s = invalid_submit s"
    using assms(2) by (auto simp: handleSubmit_def split: option.split)
  then show ?thesis by (simp add: invalid_submit_def)
qed

theorem invalid_submission_frame_witness:
  "url (run (mount None) failed_job) = [] \<and>
   logs (handleSubmit (Fetched None (Rejected Undefined)) (run (mount None) failed_job))
     = [Str ''parsing''] \<and>
   jobId (handleSubmit (Fetched None (Rejected Undefined)) (run (mount None) failed_job))
     = Str ''abc'' \<and>
   report (handleSubmit (Fetched None (Rejected Undefined)) (run (mount None) failed_job))
     = Null"
proof -
  have 1: "url (run (mount None) failed_job) = []" by code_simp
  have 2: "logs (run (mount None) failed_job) = [Str ''parsing'']" by code_simp
  have 3: "jobId (run (mount None) failed_job) = Str ''abc''" by code_simp
  have 4: "report (run (mount None) failed_job) = Null" by code_simp
  show ?thesis
    using 1 2 3 4 invalid_submission_frame[OF refl disjI1, OF 1, of "Fetched None (Rejected Undefined)"]
    by simp
qed

text \<open>
  C8, as the code has it. A response that is not ok ends the submission in status error
  with no job identifier, and the error message is: the \<open>error\<close> field of the body when
  the body is JSON (other than \<open>null\<close>) and that field is truthy; the fixed text
  \<open>Failed to start optimization job.\<close> when the body is JSON without such a field; and
  \<open>Server error: \<close> followed by the status text when the body is not JSON (or is
  \<open>null\<close>).
\<close>
theorem failed_start_reports_error:
  assumes "url s \<noteq> []" and "resumeFile s = Some f"
  shows "status (handleSubmit (Fetched tok (Response False statusText body)) s) = Error \<and>
         jobId (handleSubmit (Fetched tok (Response False statusText body)) s) = Null \<and>
         errorMessage (handleSubmit (Fetched tok (Response False statusText body)) s) =
           Str (case body of
                  SyntaxError m \<Rightarrow> ''Server error: '' @ statusText
                | Parsed b \<Rightarrow>
                    if nullish b then ''Server error: '' @ statusText
                    else if truthy (get b ''error'') then ToString (get b ''error'')
                    else ''Failed to start optimization job.'')"
  using assms
  by (simp add: handleSubmit_def request_def catch_submit_def not_ok_message_def js_or_def
      reset_for_submit_def getSession_call_def Let_def split: parse.split)

theorem failed_start_reports_error_witness:
  "url (run (mount None) fill_form) \<noteq> [] \<and>
   resumeFile (run (mount None) fill_form) = Some (File ''resume.pdf'' ''%PDF'') \<and>
   errorMessage (handleSubmit
       (Fetched None (Response False ''Bad Request'' (Parsed (Obj [(''error'', Str ''No resume'')]))))
       (run (mount None) fill_form)) = Str ''No resume''"
proof -
  have 1: "url (run (mount None) fill_form) \<noteq> []" by code_simp
  have 2: "resumeFile (run (mount None) fill_form) = Some (File ''resume.pdf'' ''%PDF'')"
    by code_simp
  show ?thesis
    using 1 2 failed_start_reports_error[OF 1 2, of None "''Bad Request''"
        "Parsed (Obj [(''error'', Str ''No resume'')])"]
    by (simp add: nullish_def)
qed

theorem failed_start_counterexample:
  "status (handleSubmit (Fetched None (Response False ''Bad Request'' (Parsed (Obj []))))
             (run (mount None) fill_form)) = Error \<and>
   errorMessage (handleSubmit (Fetched None (Response False ''Bad Request'' (Parsed (Obj []))))
             (run (mount None) fill_form)) = Str ''Failed to start optimization job.'' \<and>
   errorMessage (handleSubmit (Fetched None (Response False ''Bad Request'' (Parsed (Obj []))))
             (run (mount None) fill_form)) \<noteq> Str (''Server error: '' @ ''Bad Request'') \<and>
   errorMessage (handleSubmit
       (Fetched None (Response False ''Internal Server Error'' (Parsed (Obj []))))
       (run (mount None) fill_form)) = Str ''Failed to start optimization job.''"
  by code_simp

lemma loading_stuck:
  assumes "settled s" "status s = Loading" "\<And>n. \<not> is_open s n"
  shows "step s e = s"
  using assms(2,3) by (cases e) (simp_all add: form_disabled_def)

lemma loading_stuck_run:
  assumes "settled s" "status s = Loading" "\<And>n. \<not> is_open s n"
  shows "run s es = s"
  by (induction es) (simp_all add: run_Cons loading_stuck[OF assms], simp add: run_def)

text \<open>
  C9, as the code has it. When the job-start response is ok and its body is JSON other
  than \<open>null\<close> with no \<open>job_id\<close>, the job identifier becomes \<open>undefined\<close>, no
  \<open>EventSource\<close> is created, no error is reported, and the status is loading and stays
  so: no event that can reach the component changes its state any more.
\<close>
theorem missing_job_id_stays_loading:
  assumes "s = run (mount env) es" and "\<not> form_disabled s"
    and "url s \<noteq> []" and "resumeFile s = Some f"
    and "\<not> nullish body" and "get body ''job_id'' = Undefined"
  shows "let s' = step s (Submit (Fetched tok (Response True statusText (Parsed body)))) in
           jobId s' = Undefined \<and> status s' = Loading \<and> errorMessage s' = Str [] \<and>
           length (sources s') = length (sources s) \<and> (\<forall>n. \<not> is_open s' n) \<and>
           (\<forall>es'. run s' es' = s')"
proof -
  let ?e = "Submit (Fetched tok (Response True statusText (Parsed body)))"
  define s' where "s' = step s ?e"
  have st: "settled s" using assms(1) reachable_inv by blast
  have st': "settled s'" unfolding s'_def using st by (rule settled_step)
  have h: "s' = commit (request (url s) f (Fetched tok (Response True statusText (Parsed body)))
                  (commit (getSession_call (reset_for_submit s))))"
    using assms(2,3,4) by (simp add: s'_def handleSubmit_def)
  have j: "jobId s' = Undefined" and l: "status s' = Loading" and m: "errorMessage s' = Str []"
    using assms(5,6) by (simp_all add: h request_def Let_def reset_for_submit_def getSession_call_def)
  have "issued ?e = []" using assms(6) by simp
  then have "map es_jobId (sources s') = map es_jobId (sources s)"
    using ids_step[OF st, of ?e] by (simp add: s'_def)
  then have n: "length (sources s') = length (sources s)" by (rule map_eq_imp_length_eq)
  have r: "s' = run (mount env) (es @ [?e])" by (simp add: s'_def assms(1) run_snoc)
  have q: "\<not> is_open s' k" for k
  proof
    assume o: "is_open s' k"
    then have "sources s' ! k \<in> set (sources s')" by (simp add: is_open_def)
    then have "truthy (es_jobId (sources s' ! k))" unfolding r by (rule sources_truthy)
    then show False using settled_open[OF st' o] j by simp
  qed
  have "run s' es' = s'" for es' using st' l q by (rule loading_stuck_run)
  then show ?thesis
    unfolding Let_def s'_def[symmetric] using j l m n q by blast
qed

theorem missing_job_id_stays_loading_witness:
  "\<not> form_disabled (run (mount None) fill_form) \<and>
   url (run (mount None) fill_form) \<noteq> [] \<and>
   resumeFile (run (mount None) fill_form) = Some (File ''resume.pdf'' ''%PDF'') \<and>
   \<not> nullish (Obj [(''id'', Str ''abc'')]) \<and>
   get (Obj [(''id'', Str ''abc'')]) ''job_id'' = Undefined \<and>
   status (step (run (mount None) fill_form)
     (Submit (Fetched None (Response True ''OK'' (Parsed (Obj [(''id'', Str ''abc'')])))))) = Loading \<and>
   run (step (run (mount None) fill_form)
     (Submit (Fetched None (Response True ''OK'' (Parsed (Obj [(''id'', Str ''abc'')]))))))
     [ChangeUrl ''https://y'', job_started ''xyz'', StartNewJob, Stream 0 ConnectionError]
   = step (run (mount None) fill_form)
     (Submit (Fetched None (Response True ''OK'' (Parsed (Obj [(''id'', Str ''abc'')])))))"
proof -
  have 1: "\<not> form_disabled (run (mount None) fill_form)" by code_simp
  have 2: "url (run (mount None) fill_form) \<noteq> []" by code_simp
  have 3: "resumeFile (run (mount None) fill_form) = Some (File ''resume.pdf'' ''%PDF'')"
    by code_simp
  have 4: "\<not> nullish (Obj [(''id'', Str ''abc'')])" by (simp add: nullish_def)
  have 5: "get (Obj [(''id'', Str ''abc'')]) ''job_id'' = Undefined" by simp
  show ?thesis
    using 1 2 3 4 5 missing_job_id_stays_loading[OF refl 1 2 3 4 5, of None "''OK''"]
    by (simp add: Let_def)
qed

theorem missing_job_id_counterexample:
  "get Null ''job_id'' = Undefined \<and>
   status (step (run (mount None) fill_form)
     (Submit (Fetched None (Response True ''OK'' (Parsed Null))))) = Error \<and>
   errorMessage (step (run (mount None) fill_form)
     (Submit (Fetched None (Response True ''OK'' (Parsed Null))))) =
     Str (TypeError_message Null ''job_id'') \<and>
   jobId (step (run (mount None) fill_form)
     (Submit (Fetched None (Response True ''OK'' (Parsed Null))))) = Null"
  by code_simp

lemma downloads_append [simp]: "downloads (xs @ ys) = downloads xs @ downloads ys"
  by (simp add: downloads_def)

lemma downloads_inert: "list_all (\<lambda>e. download_of e = []) xs \<Longrightarrow> downloads xs = []"
  by (induction xs) (simp_all add: downloads_def)

lemma downloads_commit: "downloads (effects (commit s)) = downloads (effects s)"
  by (simp add: commit_def stream_effect_def run_cleanup_def close_def downloads_def
      split: option.split)

lemma downloads_request: "downloads (effects (request u f out s)) = downloads (effects s)"
  by (simp add: request_def catch_submit_def Let_def downloads_def
      split: outcome.split fetched.split parse.split)

lemma downloads_getSession: "downloads (effects (getSession_call s)) = downloads (effects s)"
  by (simp add: getSession_call_def downloads_def)

lemma downloads_dispatch:
  assumes "settled s" "is_open s n"
  shows "downloads (effects (dispatch n ev s)) = downloads (effects s) @ fired s (Stream n ev)"
proof -
  have j: "es_jobId (sources s ! n) = jobId s" using settled_open[OF assms] by simp
  show ?thesis
  proof (cases ev)
    case (Message m)
    then show ?thesis
      using assms(2) j
      by (cases m) (auto simp: dispatch_def onmessage_def onmessage_try_def console_error_def
          on_complete_def on_error_event_def close_def Let_def downloads_def get_nullish)
  next
    case ConnectionError
    then show ?thesis by (simp add: dispatch_def onerror_def close_def downloads_def)
  qed
qed

lemma downloads_step:
  assumes "settled s"
  shows "downloads (effects (step s e)) = downloads (effects s) @ fired s e"
proof (cases e)
  case (Stream n ev)
  show ?thesis
  proof (cases "is_open s n")
    case True
    then show ?thesis using Stream assms by (simp add: downloads_commit downloads_dispatch)
  next
    case False
    then show ?thesis using Stream by (cases ev; cases "case ev of Message m \<Rightarrow> m") auto
  qed
qed (simp_all add: downloads_commit downloads_request downloads_getSession handleSubmit_def
    invalid_submit_def reset_for_submit_def start_new_job_def split: option.split)

lemma grows_refl: "grows s s"
  by (simp add: grows_def)

lemma grows_trans: "grows a b \<Longrightarrow> grows b c \<Longrightarrow> grows a c"
  unfolding grows_def by (metis (no_types, lifting) le_trans less_le_trans)

lemma grows_same: "sources s' = sources s \<Longrightarrow> VITE_API_URL s' = VITE_API_URL s \<Longrightarrow> grows s s'"
  by (simp add: grows_def)

lemma grows_close: "grows s (close n s)"
  by (simp add: grows_def close_def nth_list_update)

lemma grows_commit: "grows s (commit s)"
  by (auto simp: grows_def commit_def stream_effect_def run_cleanup_def close_def
      nth_list_update nth_append split: option.split)

lemma grows_dispatch: "grows s (dispatch n ev s)"
  by (auto simp: grows_def dispatch_def onmessage_def onmessage_try_def console_error_def
      on_complete_def on_error_event_def onerror_def close_def Let_def nth_list_update
      split: stream_event.split parse.split)

lemma grows_step: "grows s (step s e)"
proof (cases e)
  case (ChangeUrl u)
  have "grows s (s\<lparr>url := u\<rparr>)" by (rule grows_same) simp_all
  then show ?thesis using ChangeUrl grows_commit[of "s\<lparr>url := u\<rparr>"]
    by (auto simp: grows_refl intro: grows_trans)
next
  case (ChangeFile f)
  have "grows s (s\<lparr>resumeFile := f\<rparr>)" by (rule grows_same) simp_all
  then show ?thesis using ChangeFile grows_commit[of "s\<lparr>resumeFile := f\<rparr>"]
    by (auto simp: grows_refl intro: grows_trans)
next
  case (Submit out)
  have i: "grows s (commit (invalid_submit s))"
    by (rule grows_trans[OF _ grows_commit]) (rule grows_same, simp_all add: invalid_submit_def)
  have 1: "grows s (commit (getSession_call (reset_for_submit s)))"
    by (rule grows_trans[OF _ grows_commit]) (rule grows_same, simp_all add: reset_for_submit_def getSession_call_def)
  have 2: "grows (commit (getSession_call (reset_for_submit s))) (request u f out (commit (getSession_call (reset_for_submit s))))" for u f
    by (rule grows_same) simp_all
  have v: "grows s (commit (request u f out (commit (getSession_call (reset_for_submit s)))))" for u f
    using 1 2 grows_commit grows_trans by blast
  show ?thesis using Submit i v by (simp add: handleSubmit_def grows_refl split: option.split)
next
  case StartNewJob
  have "grows s (commit (start_new_job s))"
    by (rule grows_trans[OF _ grows_commit]) (rule grows_same, simp_all add: start_new_job_def)
  then show ?thesis using StartNewJob by (simp add: grows_refl)
next
  case (Stream n ev)
  have "grows s (commit (dispatch n ev s))"
    using grows_dispatch grows_commit grows_trans by blast
  then show ?thesis using Stream by (simp add: grows_refl)
qed

lemma API_URL_grows: "grows s s' \<Longrightarrow> API_URL s' = API_URL s"
  by (simp add: grows_def API_URL_def)

lemma fired_cases:
  assumes "fired s e \<noteq> []"
  shows "\<exists>n d. e = Stream n (Message (Parsed d)) \<and> is_open s n \<and>
           get d ''type'' = Str ''complete'' \<and> truthy (get d ''filename'') \<and>
           fired s e = [(API_URL s @ ''/api/download-pdf/'' @ ToString (jobId s),
                         ToString (get d ''filename''))]"
proof (cases e)
  case (Stream n ev)
  show ?thesis
  proof (cases ev)
    case (Message m)
    show ?thesis
    proof (cases m)
      case (Parsed d)
      then show ?thesis using assms Stream Message by (simp split: if_splits)
    next
      case (SyntaxError x)
      then show ?thesis using assms Stream Message by simp
    qed
  next
    case ConnectionError
    then show ?thesis using assms Stream by simp
  qed
qed (use assms in simp_all)

lemma dl_invD:
  "dl_inv s \<Longrightarrow> h \<in> set (map fst (downloads (effects s))) \<Longrightarrow>
     \<exists>m < length (sources s). es_closed (sources s ! m) \<and>
        h = download_url s (es_jobId (sources s ! m))"
  unfolding dl_inv_def by (erule conjE, erule bspec)

lemma download_url_inj: "download_url s a = download_url s b \<Longrightarrow> ToString a = ToString b"
  by (simp add: download_url_def)

lemma download_url_grows: "grows s s' \<Longrightarrow> download_url s' j = download_url s j"
  by (simp add: download_url_def API_URL_grows)

lemma fired_url:
  "fired s e \<noteq> [] \<Longrightarrow> \<exists>f. fired s e = [(download_url s (jobId s), f)]"
  using fired_cases[of s e] by (auto simp: download_url_def)

lemma dl_step:
  assumes "settled s" "dl_inv s" "distinct (map ToString (map es_jobId (sources s)))"
  shows "dl_inv (step s e)"
proof -
  let ?s' = "step s e"
  have g: "grows s ?s'" by (rule grows_step)
  have d: "downloads (effects ?s') = downloads (effects s) @ fired s e"
    using assms(1) by (rule downloads_step)
  have old: "\<exists>m < length (sources ?s'). es_closed (sources ?s' ! m) \<and>
      h = download_url ?s' (es_jobId (sources ?s' ! m))"
    if hin: "h \<in> set (map fst (downloads (effects s)))" for h
  proof -
    obtain m where m: "m < length (sources s)" "es_closed (sources s ! m)"
      "h = download_url s (es_jobId (sources s ! m))"
      using dl_invD[OF assms(2) hin] by (elim exE conjE)
    have "m < length (sources ?s')" "es_closed (sources ?s' ! m)"
      "es_jobId (sources ?s' ! m) = es_jobId (sources s ! m)"
      using g m(1,2) unfolding grows_def by simp_all
    then show ?thesis using m(3) download_url_grows[OF g] by (intro exI[of _ m]) simp
  qed
  show ?thesis
  proof (cases "fired s e = []")
    case True
    then show ?thesis using assms(2) d old by (simp add: dl_inv_def)
  next
    case False
    obtain n dd where e: "e = Stream n (Message (Parsed dd))"
      and o: "is_open s n" and c: "get dd ''type'' = Str ''complete''"
      using fired_cases[OF False] by (elim exE conjE)
    obtain f where p: "fired s e = [(download_url s (jobId s), f)]"
      using fired_url[OF False] by (elim exE)
    have j: "es_jobId (sources s ! n) = jobId s" using settled_open[OF assms(1) o] by simp
    have n: "n < length (sources s)" "\<not> es_closed (sources s ! n)"
      using o by (simp_all add: is_open_def)
    have fresh: "download_url s (jobId s) \<notin> set (map fst (downloads (effects s)))"
    proof
      assume hin: "download_url s (jobId s) \<in> set (map fst (downloads (effects s)))"
      obtain m where m: "m < length (sources s)" "es_closed (sources s ! m)"
        "download_url s (jobId s) = download_url s (es_jobId (sources s ! m))"
        using dl_invD[OF assms(2) hin] by (elim exE conjE)
      have "ToString (es_jobId (sources s ! n)) = ToString (es_jobId (sources s ! m))"
        using download_url_inj[OF m(3)] j by simp
      then have "n = m"
        using nth_eq_iff_index_eq[OF assms(3), of n m] n(1) m(1) by simp
      then show False using n(2) m(2) by simp
    qed
    have s': "?s' = on_complete n dd s" unfolding e using assms(1) o c by (rule terminal_step(1))
    have "\<not> is_open ?s' n" by (simp add: s')
    moreover have l: "n < length (sources ?s')" using g n(1) unfolding grows_def by simp
    ultimately have cl: "es_closed (sources ?s' ! n)" by (simp add: is_open_def)
    have "es_jobId (sources ?s' ! n) = jobId s"
      using g n(1) j unfolding grows_def by simp
    then have new: "\<exists>m < length (sources ?s'). es_closed (sources ?s' ! m) \<and>
        download_url s (jobId s) = download_url ?s' (es_jobId (sources ?s' ! m))"
      using cl l download_url_grows[OF g] by (intro exI[of _ n]) simp
    have D: "map fst (downloads (effects ?s')) =
        map fst (downloads (effects s)) @ [download_url s (jobId s)]"
      using d p by simp
    have 1: "distinct (map fst (downloads (effects ?s')))"
      unfolding D using assms(2) fresh by (simp add: dl_inv_def)
    have 2: "\<exists>m < length (sources ?s'). es_closed (sources ?s' ! m) \<and>
        h = download_url ?s' (es_jobId (sources ?s' ! m))"
      if "h \<in> set (map fst (downloads (effects ?s')))" for h
    proof (cases "h = download_url s (jobId s)")
      case True
      then show ?thesis using new by simp
    next
      case False
      then have "h \<in> set (map fst (downloads (effects s)))" using that unfolding D by simp
      then show ?thesis by (rule old)
    qed
    show ?thesis unfolding dl_inv_def using 1 2 by (intro conjI ballI)
  qed
qed

lemma dl_run:
  "distinct (map ToString (job_ids es)) \<Longrightarrow> dl_inv (run (mount env) es)"
proof (induction es rule: rev_induct)
  case Nil
  have "effects (mount env) = []"
    by (simp add: mount_def commit_def stream_effect_def run_cleanup_def initial_def)
  then show ?case by (simp add: run_def dl_inv_def downloads_def)
next
  case (snoc e es)
  have d: "distinct (map ToString (job_ids es))" using snoc.prems by (simp add: job_ids_def)
  have "settled (run (mount env) es)" using reachable_inv by blast
  moreover have "dl_inv (run (mount env) es)" using d by (rule snoc.IH)
  moreover have "distinct (map ToString (map es_jobId (sources (run (mount env) es))))"
    using ids_run[of env es] d by blast
  ultimately show ?case unfolding run_snoc by (rule dl_step)
qed

lemma distinct_fst_filter:
  "distinct (map fst ds) \<Longrightarrow> length (filter (\<lambda>(h, f). h = x) ds) \<le> 1"
proof (induction ds)
  case Nil
  then show ?case by simp
next
  case (Cons a ds)
  have "filter (\<lambda>(h, f). h = x) ds = []" if "fst a = x"
    using Cons.prems that by (auto simp: filter_empty_conv image_iff)
  then show ?case using Cons by (auto split: prod.splits)
qed

lemma success_frozen:
  assumes "settled s" "status s = Success"
  shows "\<forall>e\<in>set es. e \<noteq> StartNewJob \<Longrightarrow> run s es = s"
proof (induction es)
  case Nil
  show ?case by (simp add: run_def)
next
  case (Cons e es)
  have q: "\<not> is_open s n" for n using settled_open[OF assms(1), of n] assms(2) by auto
  have "step s e = s" using Cons.prems assms(2) q by (cases e) (simp_all add: form_disabled_def)
  then show ?case using Cons by (simp add: run_Cons)
qed

lemma arm_other: "quiet_call e \<Longrightarrow> arm st e = st"
  by (cases st; cases e) simp_all

lemma arm_others: "list_all quiet_call xs \<Longrightarrow> foldl arm st xs = st"
  by (induction xs) (simp_all add: arm_other)

lemma armed_others:
  assumes "armed_inv s" "effects s' = effects s @ xs" "list_all quiet_call xs"
    "\<And>n. is_open s' n \<Longrightarrow> is_open s n"
  shows "armed_inv s'"
  using assms(1,4) by (auto simp: armed_inv_def assms(2) arm_others[OF assms(3)])

lemma armed_close: "armed_inv s \<Longrightarrow> armed_inv (close n s)"
proof (rule armed_others[where xs = "[Close n]"])
  show "effects (close n s) = effects s @ [Close n]" by (simp add: close_def)
  show "list_all quiet_call [Close n]" by simp
  show "is_open (close n s) m \<Longrightarrow> is_open s m" for m by (simp add: is_open_close)
qed

lemma armed_run_cleanup: "armed_inv s \<Longrightarrow> armed_inv (run_cleanup s)"
  by (simp add: run_cleanup_def armed_close split: option.split)

lemma armed_stream_effect: "armed_inv s \<Longrightarrow> armed_inv (stream_effect s)"
proof (cases "\<not> truthy (jobId s) \<or> status s = Error")
  case True
  assume "armed_inv s"
  then show ?thesis using True by (simp add: stream_effect_def armed_inv_def)
next
  case False
  assume a: "armed_inv s"
  obtain ok armed where f: "foldl arm (True, False) (effects s) = (ok, armed)"
    by (cases "foldl arm (True, False) (effects s)")
  show ?thesis using False a f by (simp add: stream_effect_def armed_inv_def)
qed

lemma armed_deps: "armed_inv (s\<lparr>deps := d\<rparr>) = armed_inv s"
  by (simp add: armed_inv_def)

lemma armed_commit: "armed_inv s \<Longrightarrow> armed_inv (commit s)"
  by (simp add: commit_def armed_stream_effect armed_deps armed_run_cleanup)

lemma request_quiet:
  "\<exists>xs. effects (request u f out s) = effects s @ xs \<and> list_all quiet_call xs"
  by (simp add: request_def catch_submit_def Let_def
      split: outcome.split fetched.split parse.split)

lemma armed_request: "armed_inv s \<Longrightarrow> armed_inv (request u f out s)"
proof -
  assume a: "armed_inv s"
  obtain xs where x: "effects (request u f out s) = effects s @ xs" "list_all quiet_call xs"
    using request_quiet[of u f out s] by (elim exE conjE)
  show ?thesis by (rule armed_others[OF a x]) simp
qed

lemma effects_handler:
  "effects (on_complete n d s) =
     effects s @ Close n #
       (if truthy (get d ''filename'')
        then [Download (API_URL s @ ''/api/download-pdf/'' @ ToString (es_jobId (sources s ! n)))
                       (ToString (get d ''filename''))]
        else [])"
  "effects (on_error_event n d s) = effects s @ [Close n]"
  "effects (onerror n s) = effects s @ [Close n]"
  by (simp_all add: on_complete_def on_error_event_def onerror_def close_def Let_def API_URL_def)

lemma armed_dispatch:
  assumes "settled s" "is_open s n" "armed_inv s"
  shows "armed_inv (dispatch n ev s)"
proof -
  have u: "m = n" if "is_open s m" for m using assms(1,2) that settled_unique by blast
  have sn: "snd (foldl arm (True, False) (effects s))" and fs: "fst (foldl arm (True, False) (effects s))"
    using assms(2,3) by (auto simp: armed_inv_def)
  then have f: "foldl arm (True, False) (effects s) = (True, True)"
    by (cases "foldl arm (True, False) (effects s)") simp
  have q: "\<not> (is_open s m \<and> m \<noteq> n)" for m using u by blast
  have c: "armed_inv (on_complete n d s)" for d
    by (simp add: armed_inv_def effects_handler f q)
  have e: "armed_inv (on_error_event n d s)" "armed_inv (onerror n s)" for d
    by (simp_all add: armed_inv_def effects_handler f q)
  have l: "armed_inv (s\<lparr>logs := x\<rparr>)" for x using assms(3) by (simp add: armed_inv_def)
  have k: "armed_inv (console_error a b s)" for a b
    using assms(3) f by (simp add: armed_inv_def console_error_def)
  show ?thesis
    using c e l k assms(3)
    by (simp add: dispatch_def onmessage_def onmessage_try_def
        split: stream_event.split parse.split)
qed

lemma armed_step:
  assumes "settled s" "armed_inv s"
  shows "armed_inv (step s e)"
proof (cases e)
  case (ChangeUrl u)
  have "armed_inv (s\<lparr>url := u\<rparr>)" using assms(2) by (simp add: armed_inv_def)
  then show ?thesis using ChangeUrl assms(2) by (simp add: armed_commit)
next
  case (ChangeFile f)
  have "armed_inv (s\<lparr>resumeFile := f\<rparr>)" using assms(2) by (simp add: armed_inv_def)
  then show ?thesis using ChangeFile assms(2) by (simp add: armed_commit)
next
  case (Submit out)
  have "armed_inv (getSession_call (reset_for_submit s))"
    by (rule armed_others[OF assms(2), where xs = "[GetSession]"])
      (simp_all add: reset_for_submit_def getSession_call_def)
  moreover have "armed_inv (invalid_submit s)"
    using assms(2) by (simp add: armed_inv_def invalid_submit_def)
  ultimately have "armed_inv (invalid_submit s)" "armed_inv (getSession_call (reset_for_submit s))"
    by simp_all
  then show ?thesis
    using Submit assms(2)
    by (simp add: handleSubmit_def armed_commit armed_request split: option.split)
next
  case StartNewJob
  have "armed_inv (start_new_job s)" using assms(2) by (simp add: armed_inv_def start_new_job_def)
  then show ?thesis using StartNewJob assms(2) by (simp add: armed_commit)
next
  case (Stream n ev)
  then show ?thesis using assms by (simp add: armed_commit armed_dispatch)
qed

lemma armed_run: "armed_inv (run (mount env) es)"
proof (induction es rule: rev_induct)
  case Nil
  have "armed_inv (initial env)" by (simp add: armed_inv_def initial_def is_open_def)
  then show ?case by (simp add: run_def mount_def armed_commit)
next
  case (snoc e es)
  have "settled (run (mount env) es)" using reachable_inv by blast
  then show ?case using snoc unfolding run_snoc by (rule armed_step)
qed

lemma env_run: "VITE_API_URL (run (mount env) es) = env"
proof (induction es rule: rev_induct)
  case Nil
  show ?case by (simp add: run_def mount_def initial_def)
next
  case (snoc e es)
  have "grows (run (mount env) es) (step (run (mount env) es) e)" by (rule grows_step)
  then show ?case using snoc by (simp add: run_snoc grows_def)
qed

lemma API_URL_run:
  "API_URL (run (mount env) es) =
     (case env of None \<Rightarrow> ''http://localhost:5000''
      | Some u \<Rightarrow> if u = [] then ''http://localhost:5000'' else u)"
  by (simp add: API_URL_def env_run)

text \<open>
  C4, as the code has it. In every run each stream (one per job started) fires at most
  one download, and where the job-start endpoint never hands out the same job
  identifier twice, no download URL is requested more than once. A download is fired
  only by a \<open>complete\<close> message with a truthy \<open>filename\<close>, in the step that takes the
  status from loading to success, and its URL is the configured API base (the value of
  \<open>VITE_API_URL\<close>, or \<open>http://localhost:5000\<close> when that is unset or empty) followed by
  \<open>/api/download-pdf/\<close> and the job identifier. The outcome of the download is not
  observed: once the status is success, nothing but "Start a new job" changes the
  state, so that the status cannot become error.
\<close>
theorem download_at_most_once:
  assumes "s = run (mount env) es" and "s' = step s e"
    and "base = (case env of None \<Rightarrow> ''http://localhost:5000''
                 | Some u \<Rightarrow> if u = [] then ''http://localhost:5000'' else u)"
  shows "one_download_per_stream (effects s') \<and>
         (distinct (map ToString (job_ids (es @ [e]))) \<longrightarrow>
            (\<forall>j. length (filter (\<lambda>(h, f). h = base @ ''/api/download-pdf/'' @ ToString j)
                            (downloads (effects s'))) \<le> 1)) \<and>
         (downloads (effects s') \<noteq> downloads (effects s) \<longrightarrow>
            status s = Loading \<and> status s' = Success \<and>
            (\<exists>n d. e = Stream n (Message (Parsed d)) \<and> get d ''type'' = Str ''complete'' \<and>
                   truthy (get d ''filename'') \<and>
                   downloads (effects s') = downloads (effects s) @
                     [(base @ ''/api/download-pdf/'' @ ToString (jobId s),
                       ToString (get d ''filename''))])) \<and>
         (status s' = Success \<longrightarrow> (\<forall>es'. StartNewJob \<notin> set es' \<longrightarrow> run s' es' = s'))"
proof -
  have st: "settled s" using assms(1) reachable_inv by blast
  have st': "settled s'" unfolding assms(2) using st by (rule settled_step)
  have r: "s' = run (mount env) (es @ [e])" by (simp add: assms(1,2) run_snoc)
  have a: "API_URL s = base" unfolding assms(1,3) by (rule API_URL_run)
  have 1: "length (filter (\<lambda>(h, f). h = base @ ''/api/download-pdf/'' @ ToString j)
                            (downloads (effects s'))) \<le> 1"
    if "distinct (map ToString (job_ids (es @ [e])))" for j
  proof -
    have "dl_inv s'" unfolding r using that by (rule dl_run)
    then have "distinct (map fst (downloads (effects s')))" by (simp add: dl_inv_def)
    then show ?thesis by (rule distinct_fst_filter)
  qed
  have d: "downloads (effects s') = downloads (effects s) @ fired s e"
    unfolding assms(2) using st by (rule downloads_step)
  have 2: "status s = Loading \<and> status s' = Success \<and>
            (\<exists>n d. e = Stream n (Message (Parsed d)) \<and> get d ''type'' = Str ''complete'' \<and>
                   truthy (get d ''filename'') \<and>
                   downloads (effects s') = downloads (effects s) @
                     [(base @ ''/api/download-pdf/'' @ ToString (jobId s),
                       ToString (get d ''filename''))])"
    if "downloads (effects s') \<noteq> downloads (effects s)"
  proof -
    have f: "fired s e \<noteq> []" using that d by auto
    obtain n dd where e: "e = Stream n (Message (Parsed dd))"
      and o: "is_open s n" and c: "get dd ''type'' = Str ''complete''"
      and t: "truthy (get dd ''filename'')"
      and p: "fired s e = [(API_URL s @ ''/api/download-pdf/'' @ ToString (jobId s),
                         ToString (get dd ''filename''))]"
      using fired_cases[OF f] by (elim exE conjE)
    have "s' = on_complete n dd s"
      unfolding assms(2) e using st o c by (rule terminal_step(1))
    then have "status s' = Success" by simp
    moreover have "status s = Loading" using settled_open[OF st o] by simp
    moreover have "downloads (effects s') = downloads (effects s) @
                     [(base @ ''/api/download-pdf/'' @ ToString (jobId s),
                       ToString (get dd ''filename''))]"
      using d p a by simp
    ultimately show ?thesis using e c t by (intro conjI exI[of _ n] exI[of _ dd])
  qed
  have 3: "run s' es' = s'" if "status s' = Success" "StartNewJob \<notin> set es'" for es'
    using success_frozen[OF st' that(1), of es'] that(2) by auto
  have A: "distinct (map ToString (job_ids (es @ [e]))) \<longrightarrow>
            (\<forall>j. length (filter (\<lambda>(h, f). h = base @ ''/api/download-pdf/'' @ ToString j)
                            (downloads (effects s'))) \<le> 1)"
    using 1 by (intro impI allI)
  have B: "downloads (effects s') \<noteq> downloads (effects s) \<longrightarrow>
            status s = Loading \<and> status s' = Success \<and>
            (\<exists>n d. e = Stream n (Message (Parsed d)) \<and> get d ''type'' = Str ''complete'' \<and>
                   truthy (get d ''filename'') \<and>
                   downloads (effects s') = downloads (effects s) @
                     [(base @ ''/api/download-pdf/'' @ ToString (jobId s),
                       ToString (get d ''filename''))])"
    by (rule impI) (rule 2)
  have C: "status s' = Success \<longrightarrow> (\<forall>es'. StartNewJob \<notin> set es' \<longrightarrow> run s' es' = s')"
    using 3 by (intro impI allI)
  have Z: "one_download_per_stream (effects s')"
    using armed_run[of env "es @ [e]"] unfolding r[symmetric]
    by (simp add: armed_inv_def one_download_per_stream_def)
  show ?thesis by (rule conjI[OF Z conjI[OF A conjI[OF B C]]])
qed

theorem download_at_most_once_witness:
  "distinct (map ToString (job_ids (second_job ''xyz'' @ [Stream 1 (Message (Parsed complete_event))]))) \<and>
   downloads (effects (run (mount (Some ''https://api.example.com'')) (second_job ''xyz'')))
     = [(''https://api.example.com/api/download-pdf/abc'', ''tailored.pdf'')] \<and>
   downloads (effects (step (run (mount (Some ''https://api.example.com'')) (second_job ''xyz''))
                            (Stream 1 (Message (Parsed complete_event)))))
     = [(''https://api.example.com/api/download-pdf/abc'', ''tailored.pdf''),
        (''https://api.example.com/api/download-pdf/xyz'', ''tailored.pdf'')] \<and>
   status (step (run (mount (Some ''https://api.example.com'')) (second_job ''xyz''))
                (Stream 1 (Message (Parsed complete_event)))) = Success \<and>
   one_download_per_stream
     (effects (step (run (mount (Some ''https://api.example.com'')) (second_job ''xyz''))
                    (Stream 1 (Message (Parsed complete_event))))) \<and>
   length (filter (\<lambda>(h, f). h = ''https://api.example.com/api/download-pdf/abc'')
             (downloads (effects (step (run (mount (Some ''https://api.example.com''))
                                            (second_job ''xyz''))
                                       (Stream 1 (Message (Parsed complete_event))))))) \<le> 1 \<and>
   run (step (run (mount (Some ''https://api.example.com'')) (second_job ''xyz''))
             (Stream 1 (Message (Parsed complete_event))))
       [Stream 1 ConnectionError, job_started ''uvw'', ChangeUrl []]
     = step (run (mount (Some ''https://api.example.com'')) (second_job ''xyz''))
            (Stream 1 (Message (Parsed complete_event)))"
proof -
  define S where "S = run (mount (Some ''https://api.example.com'')) (second_job ''xyz'')"
  define S' where "S' = step S (Stream 1 (Message (Parsed complete_event)))"
  have b: "''https://api.example.com'' =
      (case Some ''https://api.example.com'' of None \<Rightarrow> ''http://localhost:5000''
       | Some u \<Rightarrow> if u = [] then ''http://localhost:5000'' else u)"
    by simp
  note t0 = download_at_most_once[OF S_def S'_def b]
  have 1: "distinct (map ToString (job_ids (second_job ''xyz'' @ [Stream 1 (Message (Parsed complete_event))])))"
    by code_simp
  have 3: "downloads (effects S)
     = [(''https://api.example.com/api/download-pdf/abc'', ''tailored.pdf'')]"
    unfolding S_def by code_simp
  have 2: "downloads (effects S') \<noteq> downloads (effects S)"
    unfolding S'_def S_def by code_simp
  have 5: "jobId S = Str ''xyz''" unfolding S_def by code_simp
  have 6: "StartNewJob \<notin> set [Stream 1 ConnectionError, job_started ''uvw'', ChangeUrl []]"
    by (simp add: job_started_def)
  have 7: "get complete_event ''filename'' = Str ''tailored.pdf''"
    by (simp add: complete_event_def)
  note z = conjunct1[OF t0]
  note t = conjunct2[OF t0]
  have a: "length (filter (\<lambda>(h, f). h = ''https://api.example.com'' @ ''/api/download-pdf/'' @
              ToString (Str ''abc'')) (downloads (effects S'))) \<le> 1"
    using conjunct1[OF t, rule_format, OF 1, of "Str ''abc''"] .
  have s: "status S' = Success"
    using conjunct1[OF conjunct2[OF t], rule_format, OF 2] by (elim conjE)
  have "\<exists>n d. Stream 1 (Message (Parsed complete_event)) = Stream n (Message (Parsed d)) \<and>
      get d ''type'' = Str ''complete'' \<and> truthy (get d ''filename'') \<and>
      downloads (effects S') = downloads (effects S) @
          [(''https://api.example.com'' @ ''/api/download-pdf/'' @ ToString (jobId S),
            ToString (get d ''filename''))]"
    using conjunct1[OF conjunct2[OF t], rule_format, OF 2] by (elim conjE)
  then have d: "downloads (effects S')
     = [(''https://api.example.com/api/download-pdf/abc'', ''tailored.pdf''),
        (''https://api.example.com/api/download-pdf/xyz'', ''tailored.pdf'')]"
    using 3 5 7 by auto
  have f: "run S' [Stream 1 ConnectionError, job_started ''uvw'', ChangeUrl []] = S'"
    using conjunct2[OF conjunct2[OF t], rule_format, OF s 6] .
  show ?thesis
    unfolding S_def[symmetric] S'_def[symmetric] using 1 3 d s z a f by simp
qed

theorem download_twice_counterexample:
  "downloads (effects (run (mount None)
       (second_job ''abc'' @ [Stream 1 (Message (Parsed complete_event))])))
     = [(''http://localhost:5000/api/download-pdf/abc'', ''tailored.pdf''),
        (''http://localhost:5000/api/download-pdf/abc'', ''tailored.pdf'')] \<and>
   length (filter (\<lambda>(h, f). h = ''http://localhost:5000/api/download-pdf/abc'')
             (downloads (effects (run (mount None)
                (second_job ''abc'' @ [Stream 1 (Message (Parsed complete_event))]))))) = 2"
  by code_simp

lemma unmount_closes_stream: "\<not> is_open (unmount (run (mount env) es)) n"
proof -
  have "settled (run (mount env) es)" using reachable_inv by blast
  then show ?thesis
    unfolding unmount_def is_open_run_cleanup using settled_open by blast
qed

end
